theory Spec2Isabelle
  imports Complex_Main
begin

section \<open>Data model\<close>

text \<open>
  The repository holds one React component, \<^verbatim>\<open>KonvaTextEditor\<close>, in two variants:
  \<^verbatim>\<open>src/unnamed/part_000\<close> and \<^verbatim>\<open>src/src/App.tsx\<close>. Both are embedded here. Handlers of
  \<^verbatim>\<open>part_000\<close> keep their source names; a handler of \<^verbatim>\<open>App.tsx\<close> whose body differs carries
  the prefix \<open>app_\<close>. Handlers whose effect on the component state is the same in both
  files are defined once.

  JavaScript numbers are modelled as reals (finite values; neither rounding nor \<^verbatim>\<open>NaN\<close> is
  modelled). Optional fields of the interface \<^verbatim>\<open>TextNode\<close> are options. The fields are prefixed
  with \<open>node_\<close>, since \<open>id\<close>, \<open>x\<close>, \<open>y\<close> and \<open>text\<close> are not usable as field names.
\<close>

record TextNode =
  node_id :: string
  node_x :: real
  node_y :: real
  node_text :: string
  node_fontSize :: real
  node_fontColor :: string
  node_width :: "real option"
  node_height :: "real option"
  node_isEditing :: "bool option"

text \<open>
  The component state: the seven \<^verbatim>\<open>useState\<close> cells and the \<^verbatim>\<open>isDragging\<close> ref of
  \<^verbatim>\<open>part_000\<close> (the handlers of \<^verbatim>\<open>App.tsx\<close> never touch it). The ref \<^verbatim>\<open>selectedNodeRef\<close>
  of \<^verbatim>\<open>App.tsx\<close> is written but never read, and is left out.
\<close>

record state =
  textNodes :: "TextNode list"
  selectedId :: "string option"
  editText :: string
  currentColor :: string
  currentFontSize :: real
  history :: "TextNode list list"
  historyIndex :: int
  isDragging :: bool

definition init_state :: state where
  "init_state =
     \<lparr>textNodes = [], selectedId = None, editText = [], currentColor = ''#000000'',
      currentFontSize = 20, history = [], historyIndex = - 1, isDragging = False\<rparr>"

text \<open>The only exception a handler can raise: \<^verbatim>\<open>JSON.parse(undefined)\<close> inside \<^verbatim>\<open>cloneDeep\<close>.\<close>

datatype error = SyntaxError

section \<open>JavaScript helpers\<close>

text \<open>\<^verbatim>\<open>!selectedId\<close> is true for \<^verbatim>\<open>null\<close> and for the empty string.\<close>

definition truthy :: "string option \<Rightarrow> bool" where
  "truthy v = (case v of None \<Rightarrow> False | Some i \<Rightarrow> i \<noteq> [])"

text \<open>\<^verbatim>\<open>node.isEditing\<close> used as a condition.\<close>

definition editing :: "TextNode \<Rightarrow> bool" where
  "editing n = (node_isEditing n = Some True)"

text \<open>An array read \<^verbatim>\<open>a[i]\<close>: \<^verbatim>\<open>undefined\<close> (here \<open>None\<close>) outside the array.\<close>

definition index :: "'a list \<Rightarrow> int \<Rightarrow> 'a option" where
  "index xs i = (if 0 \<le> i \<and> i < int (length xs) then Some (xs ! nat i) else None)"

text \<open>\<^verbatim>\<open>a.slice(0, e)\<close>: a negative end counts from the end of the array.\<close>

definition slice0 :: "'a list \<Rightarrow> int \<Rightarrow> 'a list" where
  "slice0 xs e = (if e < 0 then take (nat (int (length xs) + e)) xs else take (nat e) xs)"

text \<open>
  \<^verbatim>\<open>isEqual\<close> compares the JSON texts of two node arrays. A node's keys are always written
  in the same order (the seven keys of \<^verbatim>\<open>addTextNode\<close>, then \<^verbatim>\<open>width\<close> and \<^verbatim>\<open>height\<close>), so
  the texts are equal exactly when the arrays are structurally equal. The first argument
  is \<^verbatim>\<open>history[historyIndex]\<close>, which may be \<^verbatim>\<open>undefined\<close>; its JSON text is then
  \<^verbatim>\<open>undefined\<close> and differs from every string.
\<close>

definition isEqual :: "TextNode list option \<Rightarrow> TextNode list \<Rightarrow> bool" where
  "isEqual a b = (case a of None \<Rightarrow> False | Some xs \<Rightarrow> xs = b)"

text \<open>
  \<^verbatim>\<open>cloneDeep\<close> is \<^verbatim>\<open>JSON.parse(JSON.stringify(nodes))\<close>: a structurally equal copy of an
  array, and a \<^verbatim>\<open>SyntaxError\<close> for \<^verbatim>\<open>undefined\<close>.
\<close>

definition cloneDeep :: "TextNode list option \<Rightarrow> error + TextNode list" where
  "cloneDeep v = (case v of None \<Rightarrow> Inl SyntaxError | Some nodes \<Rightarrow> Inr nodes)"

text \<open>\<^verbatim>\<open>Date.now().toString()\<close>: the decimal digits of the clock reading.\<close>

definition digit :: "nat \<Rightarrow> char" where
  "digit d = ''0123456789'' ! d"

fun toString :: "nat \<Rightarrow> string" where
  "toString n = (if n < 10 then [digit n] else toString (n div 10) @ [digit (n mod 10)])"

declare toString.simps [simp del]

section \<open>The history effect\<close>

text \<open>
  \<^verbatim>\<open>useEffect(..., [textNodes])\<close>: runs after every render in which \<^verbatim>\<open>textNodes\<close> was
  replaced, with the state of that render. The entry pushed is \<^verbatim>\<open>cloneDeep(textNodes)\<close>, the
  copy of an array, hence structurally \<^verbatim>\<open>textNodes\<close> itself.
\<close>

definition historyEffect :: "state \<Rightarrow> state" where
  "historyEffect s =
     (if historyIndex s = - 1 \<or> \<not> isEqual (index (history s) (historyIndex s)) (textNodes s)
      then let newHistory = slice0 (history s) (historyIndex s + 1) @ [textNodes s]
           in s\<lparr>history := newHistory, historyIndex := int (length newHistory) - 1\<rparr>
      else s)"

section \<open>Handlers shared by both variants\<close>

text \<open>Event targets of a click on the stage: the stage, a text node, anything else.\<close>

datatype target = Stage | TextTarget string | OtherTarget

definition handleTransform :: "string \<Rightarrow> real \<Rightarrow> state \<Rightarrow> state" where
  "handleTransform i scaleX s =
     (case find (\<lambda>n. node_id n = i) (textNodes s) of
        None \<Rightarrow> s
      | Some node \<Rightarrow>
          let newFontSize = max 5 (node_fontSize node * scaleX)
          in if selectedId s = Some i then s\<lparr>currentFontSize := newFontSize\<rparr> else s)"

definition handleFontSizeChange :: "real \<Rightarrow> state \<Rightarrow> state" where
  "handleFontSizeChange size' s =
     (let s1 = s\<lparr>currentFontSize := size'\<rparr>
      in if truthy (selectedId s)
         then s1\<lparr>textNodes :=
                map (\<lambda>node. if Some (node_id node) = selectedId s
                             then node\<lparr>node_fontSize := size'\<rparr> else node) (textNodes s)\<rparr>
         else s1)"

definition handleColorChange :: "string \<Rightarrow> state \<Rightarrow> state" where
  "handleColorChange color s =
     (let s1 = s\<lparr>currentColor := color\<rparr>
      in if truthy (selectedId s)
         then s1\<lparr>textNodes :=
                map (\<lambda>node. if Some (node_id node) = selectedId s
                             then node\<lparr>node_fontColor := color\<rparr> else node) (textNodes s)\<rparr>
         else s1)"

definition addTextNode :: "nat \<Rightarrow> state \<Rightarrow> state" where
  "addTextNode now s =
     (let newTextNode =
            \<lparr>node_id = toString now, node_x = 50, node_y = 50,
             node_text = ''Double click to edit'', node_fontSize = currentFontSize s,
             node_fontColor = currentColor s, node_width = None, node_height = None,
             node_isEditing = Some False\<rparr>
      in s\<lparr>textNodes := textNodes s @ [newTextNode], selectedId := Some (node_id newTextNode)\<rparr>)"

definition deleteSelected :: "state \<Rightarrow> state" where
  "deleteSelected s =
     (if \<not> truthy (selectedId s) then s
      else s\<lparr>textNodes := filter (\<lambda>node. Some (node_id node) \<noteq> selectedId s) (textNodes s),
             selectedId := None\<rparr>)"

section \<open>Handlers of \<^verbatim>\<open>part_000\<close>\<close>

definition handleStageClick :: "target \<Rightarrow> state \<Rightarrow> state" where
  "handleStageClick t s =
     (if isDragging s then s\<lparr>isDragging := False\<rparr>
      else case t of
        Stage \<Rightarrow> s\<lparr>selectedId := None\<rparr>
      | TextTarget i \<Rightarrow>
          (case find (\<lambda>n. node_id n = i) (textNodes s) of
             Some node \<Rightarrow>
               s\<lparr>selectedId := Some i, currentColor := node_fontColor node,
                 currentFontSize := node_fontSize node\<rparr>
           | None \<Rightarrow> s\<lparr>selectedId := Some i\<rparr>)
      | OtherTarget \<Rightarrow> s\<lparr>selectedId := None\<rparr>)"

definition handleDragStart :: "state \<Rightarrow> state" where
  "handleDragStart s = s\<lparr>isDragging := True\<rparr>"

definition handleDragEnd :: "string \<Rightarrow> real \<Rightarrow> real \<Rightarrow> state \<Rightarrow> state" where
  "handleDragEnd i ex ey s =
     s\<lparr>textNodes :=
         map (\<lambda>node. if node_id node = i then node\<lparr>node_x := ex, node_y := ey\<rparr> else node)
           (textNodes s),
       isDragging := False\<rparr>"

text \<open>
  The arguments after the id are what the handler reads from the event target:
  \<^verbatim>\<open>x()\<close>, \<^verbatim>\<open>y()\<close>, \<^verbatim>\<open>scaleX()\<close>, \<^verbatim>\<open>scaleY()\<close>, \<^verbatim>\<open>width()\<close>, \<^verbatim>\<open>height()\<close>.
\<close>

definition transformed ::
    "string \<Rightarrow> real \<Rightarrow> real \<Rightarrow> real \<Rightarrow> real \<Rightarrow> real \<Rightarrow> real \<Rightarrow> TextNode \<Rightarrow> TextNode" where
  "transformed i ex ey scaleX scaleY w h node =
     (if node_id node = i
      then node\<lparr>node_x := ex, node_y := ey,
                node_fontSize := max 5 (node_fontSize node * scaleX),
                node_width := Some (w * scaleX), node_height := Some (h * scaleY)\<rparr>
      else node)"

definition handleTransformEnd ::
    "string \<Rightarrow> real \<Rightarrow> real \<Rightarrow> real \<Rightarrow> real \<Rightarrow> real \<Rightarrow> real \<Rightarrow> state \<Rightarrow> state" where
  "handleTransformEnd i ex ey scaleX scaleY w h s =
     (case find (\<lambda>n. node_id n = i) (textNodes s) of
        None \<Rightarrow> s
      | Some _ \<Rightarrow> s\<lparr>textNodes := map (transformed i ex ey scaleX scaleY w h) (textNodes s)\<rparr>)"

definition handleTextDoubleClick :: "string \<Rightarrow> state \<Rightarrow> state" where
  "handleTextDoubleClick i s =
     (if isDragging s then s
      else case find (\<lambda>n. node_id n = i) (textNodes s) of
        None \<Rightarrow> s
      | Some node \<Rightarrow>
          s\<lparr>editText := node_text node, selectedId := Some i,
            currentColor := node_fontColor node, currentFontSize := node_fontSize node,
            textNodes :=
              map (\<lambda>n. if node_id n = i then n\<lparr>node_isEditing := Some True\<rparr>
                        else n\<lparr>node_isEditing := Some False\<rparr>) (textNodes s)\<rparr>)"

text \<open>
  The first argument is \<^verbatim>\<open>textInputRef.current?.value\<close>: the text of the overlay input, or
  \<^verbatim>\<open>undefined\<close> when no input is mounted. \<^verbatim>\<open>v || editText\<close> takes \<^verbatim>\<open>editText\<close> when \<^verbatim>\<open>v\<close> is
  \<^verbatim>\<open>undefined\<close> or the empty string.
\<close>

definition handleInputBlur :: "string option \<Rightarrow> state \<Rightarrow> state" where
  "handleInputBlur inputValue s =
     (if \<not> truthy (selectedId s) then s
      else let updatedText =
                 (case inputValue of
                    None \<Rightarrow> editText s
                  | Some v \<Rightarrow> if v \<noteq> [] then v else editText s)
           in s\<lparr>textNodes :=
                  map (\<lambda>node. if Some (node_id node) = selectedId s
                               then node\<lparr>node_text := updatedText,
                                         node_fontColor := currentColor s,
                                         node_fontSize := currentFontSize s,
                                         node_isEditing := Some False\<rparr>
                               else node) (textNodes s),
                editText := updatedText\<rparr>)"

definition undo :: "state \<Rightarrow> error + state" where
  "undo s =
     (if historyIndex s > 0
      then let newIndex = historyIndex s - 1
           in case cloneDeep (index (history s) newIndex) of
                Inl e \<Rightarrow> Inl e
              | Inr nodes \<Rightarrow>
                  Inr (s\<lparr>historyIndex := newIndex, textNodes := nodes, selectedId := None\<rparr>)
      else Inr s)"

definition redo :: "state \<Rightarrow> error + state" where
  "redo s =
     (if historyIndex s < int (length (history s)) - 1
      then let newIndex = historyIndex s + 1
           in case cloneDeep (index (history s) newIndex) of
                Inl e \<Rightarrow> Inl e
              | Inr nodes \<Rightarrow>
                  Inr (s\<lparr>historyIndex := newIndex, textNodes := nodes, selectedId := None\<rparr>)
      else Inr s)"

section \<open>Handlers of \<^verbatim>\<open>App.tsx\<close> that differ\<close>

definition app_handleStageClick :: "target \<Rightarrow> state \<Rightarrow> state" where
  "app_handleStageClick t s =
     (case t of
        Stage \<Rightarrow> s\<lparr>selectedId := None\<rparr>
      | TextTarget i \<Rightarrow>
          (case find (\<lambda>n. node_id n = i) (textNodes s) of
             Some node \<Rightarrow>
               s\<lparr>selectedId := Some i, currentColor := node_fontColor node,
                 currentFontSize := node_fontSize node\<rparr>
           | None \<Rightarrow> s\<lparr>selectedId := Some i\<rparr>)
      | OtherTarget \<Rightarrow> s\<lparr>selectedId := None\<rparr>)"

definition app_handleDragEnd :: "string \<Rightarrow> real \<Rightarrow> real \<Rightarrow> state \<Rightarrow> state" where
  "app_handleDragEnd i ex ey s =
     s\<lparr>textNodes :=
         map (\<lambda>node. if node_id node = i then node\<lparr>node_x := ex, node_y := ey\<rparr> else node)
           (textNodes s)\<rparr>"

definition app_handleTransformEnd ::
    "string \<Rightarrow> real \<Rightarrow> real \<Rightarrow> real \<Rightarrow> real \<Rightarrow> real \<Rightarrow> real \<Rightarrow> state \<Rightarrow> state" where
  "app_handleTransformEnd i ex ey scaleX scaleY w h s =
     s\<lparr>textNodes := map (transformed i ex ey scaleX scaleY w h) (textNodes s)\<rparr>"

definition updateTextNode :: "string \<Rightarrow> (TextNode \<Rightarrow> TextNode) \<Rightarrow> state \<Rightarrow> state" where
  "updateTextNode i updates s =
     s\<lparr>textNodes := map (\<lambda>node. if node_id node = i then updates node else node) (textNodes s)\<rparr>"

definition app_handleTextDoubleClick :: "string \<Rightarrow> state \<Rightarrow> state" where
  "app_handleTextDoubleClick i s =
     (case find (\<lambda>n. node_id n = i) (textNodes s) of
        None \<Rightarrow> s
      | Some node \<Rightarrow>
          updateTextNode i (\<lambda>n. n\<lparr>node_isEditing := Some True\<rparr>)
            (s\<lparr>editText := node_text node, selectedId := Some i,
               currentColor := node_fontColor node, currentFontSize := node_fontSize node\<rparr>))"

definition app_handleInputBlur :: "state \<Rightarrow> state" where
  "app_handleInputBlur s =
     (case selectedId s of
        None \<Rightarrow> s
      | Some sel \<Rightarrow>
          if sel = [] then s
          else updateTextNode sel
                 (\<lambda>n. n\<lparr>node_text := editText s, node_fontColor := currentColor s,
                         node_fontSize := currentFontSize s, node_isEditing := Some False\<rparr>) s)"

definition app_undo :: "state \<Rightarrow> error + state" where
  "app_undo s =
     (if historyIndex s > 0
      then let newIndex = historyIndex s - 1
           in case cloneDeep (index (history s) newIndex) of
                Inl e \<Rightarrow> Inl e
              | Inr nodes \<Rightarrow> Inr (s\<lparr>historyIndex := newIndex, textNodes := nodes\<rparr>)
      else Inr s)"

definition app_redo :: "state \<Rightarrow> error + state" where
  "app_redo s =
     (if historyIndex s < int (length (history s)) - 1
      then let newIndex = historyIndex s + 1
           in case cloneDeep (index (history s) newIndex) of
                Inl e \<Rightarrow> Inl e
              | Inr nodes \<Rightarrow> Inr (s\<lparr>historyIndex := newIndex, textNodes := nodes\<rparr>)
      else Inr s)"

section \<open>Events and runs\<close>

text \<open>
  One constructor per user gesture wired to a handler in the JSX, with what the handler
  reads from its event. \<open>InputChange\<close> is the overlay's \<^verbatim>\<open>onChange\<close>, which calls
  \<^verbatim>\<open>setEditText\<close>; \<open>InputBlur\<close> (blur, or the Enter key) carries the text of the overlay
  input of \<^verbatim>\<open>part_000\<close>.
\<close>

datatype event =
    StageClick target
  | DragStart
  | DragEnd string real real
  | Transform string real
  | TransformEnd string real real real real real real
  | TextDoubleClick string
  | InputChange string
  | InputBlur "string option"
  | FontSizeChange real
  | ColorChange string
  | AddText nat
  | Undo
  | Redo
  | DeleteSelected

fun handle :: "event \<Rightarrow> state \<Rightarrow> error + state" where
  "handle (StageClick t) s = Inr (handleStageClick t s)"
| "handle DragStart s = Inr (handleDragStart s)"
| "handle (DragEnd i ex ey) s = Inr (handleDragEnd i ex ey s)"
| "handle (Transform i scaleX) s = Inr (handleTransform i scaleX s)"
| "handle (TransformEnd i ex ey scaleX scaleY w h) s =
     Inr (handleTransformEnd i ex ey scaleX scaleY w h s)"
| "handle (TextDoubleClick i) s = Inr (handleTextDoubleClick i s)"
| "handle (InputChange v) s = Inr (s\<lparr>editText := v\<rparr>)"
| "handle (InputBlur v) s = Inr (handleInputBlur v s)"
| "handle (FontSizeChange size') s = Inr (handleFontSizeChange size' s)"
| "handle (ColorChange color) s = Inr (handleColorChange color s)"
| "handle (AddText now) s = Inr (addTextNode now s)"
| "handle Undo s = undo s"
| "handle Redo s = redo s"
| "handle DeleteSelected s = Inr (deleteSelected s)"

fun app_handle :: "event \<Rightarrow> state \<Rightarrow> error + state" where
  "app_handle (StageClick t) s = Inr (app_handleStageClick t s)"
| "app_handle DragStart s = Inr s"
| "app_handle (DragEnd i ex ey) s = Inr (app_handleDragEnd i ex ey s)"
| "app_handle (Transform i scaleX) s = Inr (handleTransform i scaleX s)"
| "app_handle (TransformEnd i ex ey scaleX scaleY w h) s =
     Inr (app_handleTransformEnd i ex ey scaleX scaleY w h s)"
| "app_handle (TextDoubleClick i) s = Inr (app_handleTextDoubleClick i s)"
| "app_handle (InputChange v) s = Inr (s\<lparr>editText := v\<rparr>)"
| "app_handle (InputBlur v) s = Inr (app_handleInputBlur s)"
| "app_handle (FontSizeChange size') s = Inr (handleFontSizeChange size' s)"
| "app_handle (ColorChange color) s = Inr (handleColorChange color s)"
| "app_handle (AddText now) s = Inr (addTextNode now s)"
| "app_handle Undo s = app_undo s"
| "app_handle Redo s = app_redo s"
| "app_handle DeleteSelected s = Inr (deleteSelected s)"

text \<open>
  A step is a handler followed by the render it causes, hence by the history effect. The
  effect runs only when the handler replaced \<^verbatim>\<open>textNodes\<close>; on a state whose history
  entry at the cursor equals \<^verbatim>\<open>textNodes\<close> it changes nothing (lemma \<open>historyEffect_settled\<close>
  below), so running it after every handler gives the same states.
\<close>

definition step :: "event \<Rightarrow> state \<Rightarrow> error + state" where
  "step e s = (case handle e s of Inl err \<Rightarrow> Inl err | Inr s' \<Rightarrow> Inr (historyEffect s'))"

definition app_step :: "event \<Rightarrow> state \<Rightarrow> error + state" where
  "app_step e s = (case app_handle e s of Inl err \<Rightarrow> Inl err | Inr s' \<Rightarrow> Inr (historyEffect s'))"

fun run :: "event list \<Rightarrow> state \<Rightarrow> error + state" where
  "run [] s = Inr s"
| "run (e # es) s = (case step e s of Inl err \<Rightarrow> Inl err | Inr s' \<Rightarrow> run es s')"

fun app_run :: "event list \<Rightarrow> state \<Rightarrow> error + state" where
  "app_run [] s = Inr s"
| "app_run (e # es) s = (case app_step e s of Inl err \<Rightarrow> Inl err | Inr s' \<Rightarrow> app_run es s')"

text \<open>
  Mounting the component runs the two mount effects in order: \<^verbatim>\<open>addTextNode()\<close>, then the
  history effect on the state of the first render (its updates do not depend on the added
  node); the render that follows runs the history effect again. \<open>now\<close> is the reading of
  \<^verbatim>\<open>Date.now()\<close>.
\<close>

definition mount :: "nat \<Rightarrow> state" where
  "mount now = historyEffect (addTextNode now (historyEffect init_state))"

section \<open>The overlay input of \<^verbatim>\<open>part_000\<close>\<close>

text \<open>
  The overlay input of \<^verbatim>\<open>part_000\<close> is an uncontrolled DOM input. The component renders it
  while some object is in edit mode (\<^verbatim>\<open>textNodes.some((n) => n.isEditing)\<close>) and gives it
  \<^verbatim>\<open>defaultValue={editText}\<close>, its text when it mounts. Its handlers are \<^verbatim>\<open>onChange\<close>
  (\<^verbatim>\<open>setEditText(e.target.value)\<close>), \<^verbatim>\<open>onBlur\<close> and the Enter key (both \<^verbatim>\<open>handleInputBlur\<close>);
  nothing else calls \<^verbatim>\<open>handleInputBlur\<close>. The double-click handler, when it has passed its
  guards, writes \<^verbatim>\<open>node.text\<close> into the input from a timeout, if the input is mounted then.

  The text of the input is kept beside the component state: \<open>None\<close> while no input is
  mounted. (The input of \<^verbatim>\<open>App.tsx\<close> is controlled, \<^verbatim>\<open>value={editText}\<close>: its text is
  \<^verbatim>\<open>editText\<close> itself.)
\<close>

type_synonym ui = "state \<times> string option"

text \<open>The text of the overlay after a render of the state \<open>s\<close>.\<close>

definition render :: "string option \<Rightarrow> state \<Rightarrow> string option" where
  "render overlay s =
     (if list_ex editing (textNodes s)
      then (case overlay of None \<Rightarrow> Some (editText s) | Some v \<Rightarrow> Some v)
      else None)"

text \<open>The node for which \<^verbatim>\<open>handleTextDoubleClick\<close> sets its timeout, if it gets that far.\<close>

definition doubleClicked :: "string \<Rightarrow> state \<Rightarrow> TextNode option" where
  "doubleClicked i s = (if isDragging s then None else find (\<lambda>n. node_id n = i) (textNodes s))"

text \<open>
  A step of the interface. A change of the input to \<open>v\<close> and a blur happen only while
  the input is mounted; the text a blur hands to \<^verbatim>\<open>handleInputBlur\<close> is the text of the
  input, whatever the event carries.
\<close>

fun ui_step :: "event \<Rightarrow> ui \<Rightarrow> error + ui" where
  "ui_step (InputChange v) (s, overlay) =
     (case overlay of
        None \<Rightarrow> Inr (s, None)
      | Some old \<Rightarrow>
          (case step (InputChange v) s of
             Inl err \<Rightarrow> Inl err
           | Inr s' \<Rightarrow> Inr (s', render (Some v) s')))"
| "ui_step (InputBlur x) (s, overlay) =
     (case overlay of
        None \<Rightarrow> Inr (s, None)
      | Some v \<Rightarrow>
          (case step (InputBlur (Some v)) s of
             Inl err \<Rightarrow> Inl err
           | Inr s' \<Rightarrow> Inr (s', render (Some v) s')))"
| "ui_step (TextDoubleClick i) (s, overlay) =
     (case step (TextDoubleClick i) s of
        Inl err \<Rightarrow> Inl err
      | Inr s' \<Rightarrow>
          Inr (s', case doubleClicked i s of
                     None \<Rightarrow> render overlay s'
                   | Some node \<Rightarrow>
                       (case render overlay s' of
                          None \<Rightarrow> None
                        | Some shown \<Rightarrow> Some (node_text node))))"
| "ui_step e (s, overlay) =
     (case step e s of Inl err \<Rightarrow> Inl err | Inr s' \<Rightarrow> Inr (s', render overlay s'))"

fun ui_run :: "event list \<Rightarrow> ui \<Rightarrow> error + ui" where
  "ui_run [] u = Inr u"
| "ui_run (e # es) u = (case ui_step e u of Inl err \<Rightarrow> Inl err | Inr u' \<Rightarrow> ui_run es u')"

text \<open>The overlay, when mounted, shows the edit buffer.\<close>

fun synced :: "ui \<Rightarrow> bool" where
  "synced (s, overlay) = (case overlay of None \<Rightarrow> True | Some v \<Rightarrow> v = editText s)"

section \<open>Invariants\<close>

text \<open>
  A state is settled when the history entry at the cursor is the live node list; in
  particular the cursor then lies inside the log.
\<close>

definition settled :: "state \<Rightarrow> bool" where
  "settled s = (index (history s) (historyIndex s) = Some (textNodes s))"

text \<open>The font-size floor, on a node list and on a whole state (live list, current size, log).\<close>

definition fontsOk :: "TextNode list \<Rightarrow> bool" where
  "fontsOk ns = (\<forall>n\<in>set ns. 5 \<le> node_fontSize n)"

definition fontInv :: "state \<Rightarrow> bool" where
  "fontInv s =
     (fontsOk (textNodes s) \<and> 5 \<le> currentFontSize s \<and> (\<forall>h\<in>set (history s). fontsOk h))"

text \<open>
  The only caller of \<^verbatim>\<open>handleFontSizeChange\<close> is the range slider of the side panel
  (\<^verbatim>\<open>min="10" max="72"\<close>, \<^verbatim>\<open>onChange\<close> passing \<^verbatim>\<open>parseInt(e.target.value)\<close>): the sizes it
  delivers lie between 10 and 72.
\<close>

fun fromSlider :: "event \<Rightarrow> bool" where
  "fromSlider (FontSizeChange size') = (10 \<le> size' \<and> size' \<le> 72)"
| "fromSlider _ = True"

text \<open>What the proof of the floor needs of these sizes: they are at least 5.\<close>

fun sizeOk :: "event \<Rightarrow> bool" where
  "sizeOk (FontSizeChange size') = (5 \<le> size')"
| "sizeOk _ = True"

text \<open>The cursor is \<open>-1\<close> (nothing recorded yet) or points into the log.\<close>

definition cursorOk :: "state \<Rightarrow> bool" where
  "cursorOk s = (- 1 \<le> historyIndex s \<and> historyIndex s < int (length (history s)))"

text \<open>
  What a commit leaves in an object \<open>n'\<close> that was \<open>n\<close>: the text \<open>t\<close>, the current global
  font size and colour, a cleared edit flag, and the other fields of \<open>n\<close>.
\<close>

definition committed :: "state \<Rightarrow> string \<Rightarrow> TextNode \<Rightarrow> TextNode \<Rightarrow> bool" where
  "committed s t n n' =
     (node_text n' = t \<and> node_fontSize n' = currentFontSize s \<and>
      node_fontColor n' = currentColor s \<and> node_isEditing n' = Some False \<and>
      node_id n' = node_id n \<and> node_x n' = node_x n \<and> node_y n' = node_y n \<and>
      node_width n' = node_width n \<and> node_height n' = node_height n)"

text \<open>
  A run is guarded by \<open>g\<close> when every event satisfies \<open>g\<close> in the state in which it
  arrives; \<open>st\<close> is the step function of the variant.
\<close>

fun guarded ::
    "(event \<Rightarrow> state \<Rightarrow> bool) \<Rightarrow> (event \<Rightarrow> state \<Rightarrow> error + state) \<Rightarrow> event list \<Rightarrow> state \<Rightarrow> bool" where
  "guarded g st [] s = True"
| "guarded g st (e # es) s =
     (g e s \<and> (case st e s of Inl err \<Rightarrow> True | Inr s' \<Rightarrow> guarded g st es s'))"

text \<open>The clock reading of an add is not the id of an object in the list.\<close>

fun freshAdd :: "event \<Rightarrow> state \<Rightarrow> bool" where
  "freshAdd (AddText now) s = (toString now \<notin> set (map node_id (textNodes s)))"
| "freshAdd _ s = True"

text \<open>The ids are pairwise distinct, in the live list and in every entry of the log.\<close>

definition idsInv :: "state \<Rightarrow> bool" where
  "idsInv s =
     (distinct (map node_id (textNodes s)) \<and> (\<forall>h\<in>set (history s). distinct (map node_id h)))"

text \<open>A click on a text node hits a node of the current list (the stage renders no other).\<close>

fun clickOnNode :: "event \<Rightarrow> state \<Rightarrow> bool" where
  "clickOnNode (StageClick (TextTarget i)) s = (i \<in> set (map node_id (textNodes s)))"
| "clickOnNode _ s = True"

text \<open>The selection is \<^verbatim>\<open>null\<close> or the id of an object of the list.\<close>

definition selectionOk :: "state \<Rightarrow> bool" where
  "selectionOk s =
     (case selectedId s of None \<Rightarrow> True | Some i \<Rightarrow> i \<in> set (map node_id (textNodes s)))"

text \<open>At most one object is in edit mode, in the live list and in every entry of the log.\<close>

definition oneEditing :: "TextNode list \<Rightarrow> bool" where
  "oneEditing ns = (length (filter editing ns) \<le> 1)"

definition editInv :: "state \<Rightarrow> bool" where
  "editInv s = (oneEditing (textNodes s) \<and> (\<forall>h\<in>set (history s). oneEditing h))"

text \<open>The clock readings of the adds of a run, in order.\<close>

fun clockReadings :: "event list \<Rightarrow> nat list" where
  "clockReadings [] = []"
| "clockReadings (AddText now # es) = now # clockReadings es"
| "clockReadings (e # es) = clockReadings es"

text \<open>Every id, in the live list and in the log, is the string of a clock reading in \<open>T\<close>.\<close>

definition knownIds :: "nat set \<Rightarrow> state \<Rightarrow> bool" where
  "knownIds T s =
     (set (map node_id (textNodes s)) \<subseteq> toString ` T \<and>
      (\<forall>h\<in>set (history s). set (map node_id h) \<subseteq> toString ` T))"

section \<open>The cursor stays inside the log; no handler raises\<close>

lemma historyEffect_settled: "settled s \<Longrightarrow> historyEffect s = s"
  by (auto simp: settled_def historyEffect_def isEqual_def index_def split: if_splits)

lemma settled_historyEffect: "settled (historyEffect s)"
  by (auto simp: settled_def historyEffect_def isEqual_def index_def Let_def nth_append
      split: option.splits if_splits)

lemma settled_mount: "settled (mount now)"
  unfolding mount_def by (rule settled_historyEffect)

lemma undo_total: "settled s \<Longrightarrow> \<exists>s'. undo s = Inr s'"
  by (auto simp: settled_def undo_def cloneDeep_def index_def Let_def split: if_splits)

lemma redo_total: "settled s \<Longrightarrow> \<exists>s'. redo s = Inr s'"
  by (auto simp: settled_def redo_def cloneDeep_def index_def Let_def split: if_splits)

lemma app_undo_total: "settled s \<Longrightarrow> \<exists>s'. app_undo s = Inr s'"
  by (auto simp: settled_def app_undo_def cloneDeep_def index_def Let_def split: if_splits)

lemma app_redo_total: "settled s \<Longrightarrow> \<exists>s'. app_redo s = Inr s'"
  by (auto simp: settled_def app_redo_def cloneDeep_def index_def Let_def split: if_splits)

lemma handle_total: "settled s \<Longrightarrow> \<exists>s'. handle e s = Inr s'"
  by (cases e) (simp_all add: undo_total redo_total)

lemma app_handle_total: "settled s \<Longrightarrow> \<exists>s'. app_handle e s = Inr s'"
  by (cases e) (simp_all add: app_undo_total app_redo_total)

lemma step_total: "settled s \<Longrightarrow> \<exists>s'. step e s = Inr s' \<and> settled s'"
  using handle_total [of s e] by (auto simp: step_def settled_historyEffect)

lemma app_step_total: "settled s \<Longrightarrow> \<exists>s'. app_step e s = Inr s' \<and> settled s'"
  using app_handle_total [of s e] by (auto simp: app_step_def settled_historyEffect)

lemma run_total: "settled s \<Longrightarrow> \<exists>s'. run evs s = Inr s' \<and> settled s'"
proof (induction evs arbitrary: s)
  case Nil
  then show ?case by simp
next
  case (Cons e evs)
  from step_total [OF Cons.prems, of e] obtain s1 where "step e s = Inr s1" "settled s1"
    by blast
  with Cons.IH [of s1] show ?case by simp
qed

lemma app_run_total: "settled s \<Longrightarrow> \<exists>s'. app_run evs s = Inr s' \<and> settled s'"
proof (induction evs arbitrary: s)
  case Nil
  then show ?case by simp
next
  case (Cons e evs)
  from app_step_total [OF Cons.prems, of e] obtain s1
    where "app_step e s = Inr s1" "settled s1"
    by blast
  with Cons.IH [of s1] show ?case by simp
qed

section \<open>C1: the font-size floor\<close>

lemma find_in: "find P xs = Some x \<Longrightarrow> x \<in> set xs"
  by (auto simp: find_Some_iff)

lemma fontInv_historyEffect: "fontInv s \<Longrightarrow> fontInv (historyEffect s)"
  by (auto simp: fontInv_def historyEffect_def slice0_def Let_def dest: in_set_takeD)

lemma fontInv_index: "fontInv s \<Longrightarrow> index (history s) i = Some h \<Longrightarrow> fontsOk h"
  by (auto simp: fontInv_def index_def split: if_splits)

lemma fontInv_handleStageClick: "fontInv s \<Longrightarrow> fontInv (handleStageClick t s)"
  by (auto simp: fontInv_def fontsOk_def handleStageClick_def dest: find_in
      split: target.splits option.splits)

lemma fontInv_app_handleStageClick: "fontInv s \<Longrightarrow> fontInv (app_handleStageClick t s)"
  by (auto simp: fontInv_def fontsOk_def app_handleStageClick_def dest: find_in
      split: target.splits option.splits)

lemma fontInv_handleDragEnd: "fontInv s \<Longrightarrow> fontInv (handleDragEnd i ex ey s)"
  by (auto simp: fontInv_def fontsOk_def handleDragEnd_def)

lemma fontInv_app_handleDragEnd: "fontInv s \<Longrightarrow> fontInv (app_handleDragEnd i ex ey s)"
  by (auto simp: fontInv_def fontsOk_def app_handleDragEnd_def)

lemma fontInv_handleTransform: "fontInv s \<Longrightarrow> fontInv (handleTransform i scaleX s)"
  by (auto simp: fontInv_def handleTransform_def Let_def split: option.splits)

lemma fontsOk_transformed:
  "fontsOk ns \<Longrightarrow> fontsOk (map (transformed i ex ey scaleX scaleY w h) ns)"
  by (auto simp: fontsOk_def transformed_def)

lemma fontInv_handleTransformEnd:
  "fontInv s \<Longrightarrow> fontInv (handleTransformEnd i ex ey scaleX scaleY w h s)"
  by (auto simp: fontInv_def handleTransformEnd_def fontsOk_transformed split: option.splits)

lemma fontInv_app_handleTransformEnd:
  "fontInv s \<Longrightarrow> fontInv (app_handleTransformEnd i ex ey scaleX scaleY w h s)"
  by (auto simp: fontInv_def app_handleTransformEnd_def fontsOk_transformed)

lemma fontInv_handleTextDoubleClick: "fontInv s \<Longrightarrow> fontInv (handleTextDoubleClick i s)"
  by (auto simp: fontInv_def fontsOk_def handleTextDoubleClick_def dest: find_in
      split: option.splits)

lemma fontInv_app_handleTextDoubleClick:
  "fontInv s \<Longrightarrow> fontInv (app_handleTextDoubleClick i s)"
  by (auto simp: fontInv_def fontsOk_def app_handleTextDoubleClick_def updateTextNode_def
      dest: find_in split: option.splits)

lemma fontInv_handleInputBlur: "fontInv s \<Longrightarrow> fontInv (handleInputBlur v s)"
  by (auto simp: fontInv_def fontsOk_def handleInputBlur_def Let_def)

lemma fontInv_app_handleInputBlur: "fontInv s \<Longrightarrow> fontInv (app_handleInputBlur s)"
  by (auto simp: fontInv_def fontsOk_def app_handleInputBlur_def updateTextNode_def
      split: option.splits)

lemma fontInv_handleFontSizeChange:
  "fontInv s \<Longrightarrow> 5 \<le> size' \<Longrightarrow> fontInv (handleFontSizeChange size' s)"
  by (auto simp: fontInv_def fontsOk_def handleFontSizeChange_def Let_def)

lemma fontInv_handleColorChange: "fontInv s \<Longrightarrow> fontInv (handleColorChange color s)"
  by (auto simp: fontInv_def fontsOk_def handleColorChange_def Let_def)

lemma fontInv_addTextNode: "fontInv s \<Longrightarrow> fontInv (addTextNode now s)"
  by (auto simp: fontInv_def fontsOk_def addTextNode_def Let_def)

lemma fontInv_deleteSelected: "fontInv s \<Longrightarrow> fontInv (deleteSelected s)"
  by (auto simp: fontInv_def fontsOk_def deleteSelected_def)

lemma fontInv_undo: "fontInv s \<Longrightarrow> undo s = Inr s' \<Longrightarrow> fontInv s'"
  by (auto simp: undo_def cloneDeep_def Let_def fontInv_def dest: fontInv_index [rotated]
      split: if_splits option.splits)

lemma fontInv_redo: "fontInv s \<Longrightarrow> redo s = Inr s' \<Longrightarrow> fontInv s'"
  by (auto simp: redo_def cloneDeep_def Let_def fontInv_def index_def
      split: if_splits option.splits)

lemma fontInv_app_undo: "fontInv s \<Longrightarrow> app_undo s = Inr s' \<Longrightarrow> fontInv s'"
  by (auto simp: app_undo_def cloneDeep_def Let_def fontInv_def index_def
      split: if_splits option.splits)

lemma fontInv_app_redo: "fontInv s \<Longrightarrow> app_redo s = Inr s' \<Longrightarrow> fontInv s'"
  by (auto simp: app_redo_def cloneDeep_def Let_def fontInv_def index_def
      split: if_splits option.splits)

lemma fontInv_handleDragStart: "fontInv s \<Longrightarrow> fontInv (handleDragStart s)"
  by (simp add: fontInv_def handleDragStart_def)

lemma fontInv_editText: "fontInv s \<Longrightarrow> fontInv (s\<lparr>editText := v\<rparr>)"
  by (simp add: fontInv_def)

lemma fontInv_handle: "fontInv s \<Longrightarrow> sizeOk e \<Longrightarrow> handle e s = Inr s' \<Longrightarrow> fontInv s'"
  by (cases e)
    (auto simp: fontInv_handleStageClick fontInv_handleDragEnd fontInv_handleTransform
      fontInv_handleTransformEnd fontInv_handleTextDoubleClick fontInv_handleInputBlur
      fontInv_handleFontSizeChange fontInv_handleColorChange fontInv_addTextNode
      fontInv_deleteSelected fontInv_handleDragStart fontInv_editText
      dest: fontInv_undo fontInv_redo)

lemma fontInv_app_handle:
  "fontInv s \<Longrightarrow> sizeOk e \<Longrightarrow> app_handle e s = Inr s' \<Longrightarrow> fontInv s'"
  by (cases e)
    (auto simp: fontInv_app_handleStageClick fontInv_app_handleDragEnd fontInv_handleTransform
      fontInv_app_handleTransformEnd fontInv_app_handleTextDoubleClick
      fontInv_app_handleInputBlur fontInv_handleFontSizeChange fontInv_handleColorChange
      fontInv_addTextNode fontInv_deleteSelected fontInv_editText
      dest: fontInv_app_undo fontInv_app_redo)

lemma fontInv_step: "fontInv s \<Longrightarrow> sizeOk e \<Longrightarrow> step e s = Inr s' \<Longrightarrow> fontInv s'"
  by (auto simp: step_def split: sum.splits dest: fontInv_handle intro: fontInv_historyEffect)

lemma fontInv_app_step:
  "fontInv s \<Longrightarrow> sizeOk e \<Longrightarrow> app_step e s = Inr s' \<Longrightarrow> fontInv s'"
  by (auto simp: app_step_def split: sum.splits dest: fontInv_app_handle
      intro: fontInv_historyEffect)

lemma fontInv_run:
  "fontInv s \<Longrightarrow> \<forall>e\<in>set evs. sizeOk e \<Longrightarrow> run evs s = Inr s' \<Longrightarrow> fontInv s'"
proof (induction evs arbitrary: s)
  case Nil
  then show ?case by simp
next
  case (Cons e evs)
  from Cons.prems(3) obtain s1 where s1: "step e s = Inr s1" and r: "run evs s1 = Inr s'"
    by (auto split: sum.splits)
  from Cons.prems(1,2) s1 have "fontInv s1"
    by (auto dest: fontInv_step)
  with Cons.IH [of s1] Cons.prems(2) r show ?case by simp
qed

lemma fontInv_app_run:
  "fontInv s \<Longrightarrow> \<forall>e\<in>set evs. sizeOk e \<Longrightarrow> app_run evs s = Inr s' \<Longrightarrow> fontInv s'"
proof (induction evs arbitrary: s)
  case Nil
  then show ?case by simp
next
  case (Cons e evs)
  from Cons.prems(3) obtain s1 where s1: "app_step e s = Inr s1" and r: "app_run evs s1 = Inr s'"
    by (auto split: sum.splits)
  from Cons.prems(1,2) s1 have "fontInv s1"
    by (auto dest: fontInv_app_step)
  with Cons.IH [of s1] Cons.prems(2) r show ?case by simp
qed

lemma fontInv_mount: "fontInv (mount now)"
  by (simp add: mount_def historyEffect_def init_state_def addTextNode_def isEqual_def
      index_def slice0_def fontInv_def fontsOk_def Let_def)

lemma sizeOk_fromSlider: "fromSlider e \<Longrightarrow> sizeOk e"
  by (cases e) simp_all

text \<open>
  The floor holds after every run in which the sizes handed to \<^verbatim>\<open>handleFontSizeChange\<close> are at
  least 5, and no handler raises.
\<close>

lemma floor_for_sizes:
  assumes "\<forall>e\<in>set evs. sizeOk e"
  shows "(\<exists>s. run evs (mount now) = Inr s \<and> (\<forall>n\<in>set (textNodes s). 5 \<le> node_fontSize n)) \<and>
         (\<exists>s. app_run evs (mount now) = Inr s \<and> (\<forall>n\<in>set (textNodes s). 5 \<le> node_fontSize n))"
proof
  from run_total [OF settled_mount, of evs now] obtain s where s: "run evs (mount now) = Inr s"
    by blast
  from fontInv_run [OF fontInv_mount assms s] have "fontsOk (textNodes s)"
    by (simp add: fontInv_def)
  with s show "\<exists>s. run evs (mount now) = Inr s \<and> (\<forall>n\<in>set (textNodes s). 5 \<le> node_fontSize n)"
    by (auto simp: fontsOk_def)
next
  from app_run_total [OF settled_mount, of evs now] obtain s
    where s: "app_run evs (mount now) = Inr s"
    by blast
  from fontInv_app_run [OF fontInv_mount assms s] have "fontsOk (textNodes s)"
    by (simp add: fontInv_def)
  with s show "\<exists>s. app_run evs (mount now) = Inr s \<and> (\<forall>n\<in>set (textNodes s). 5 \<le> node_fontSize n)"
    by (auto simp: fontsOk_def)
qed

text \<open>
  C1. After the component has mounted, for every sequence of the gestures the interface
  delivers (add, move, resize with any scale, font-size changes from the slider, colour
  changes, double click, edit and commit, delete, undo, redo, in any order and with any
  arguments), no handler raises and every object of the resulting document has
  \<open>fontSize \<ge> 5\<close>, in both variants. Every prefix of such a sequence is such a sequence, so
  the floor holds after each operation.
\<close>

theorem fontSize_floor:
  assumes "\<forall>e\<in>set evs. fromSlider e"
  shows "(\<exists>s. run evs (mount now) = Inr s \<and> (\<forall>n\<in>set (textNodes s). 5 \<le> node_fontSize n)) \<and>
         (\<exists>s. app_run evs (mount now) = Inr s \<and> (\<forall>n\<in>set (textNodes s). 5 \<le> node_fontSize n))"
proof (rule floor_for_sizes)
  from assms show "\<forall>e\<in>set evs. sizeOk e"
    by (auto intro: sizeOk_fromSlider)
qed

text \<open>
  Witness for C1: a resize by the factor 1/10 (clamped to 5), a commit of the current
  size, a slider change to 10 and an undo.
\<close>

theorem fontSize_floor_witness:
  "(\<exists>s. run [TransformEnd ''7'' 1 2 (1 / 10) 1 30 10, InputBlur None, FontSizeChange 10, Undo]
          (mount 7) = Inr s \<and>
        (\<forall>n\<in>set (textNodes s). 5 \<le> node_fontSize n)) \<and>
   (\<exists>s. app_run [TransformEnd ''7'' 1 2 (1 / 10) 1 30 10, InputBlur None, FontSizeChange 10, Undo]
          (mount 7) = Inr s \<and>
        (\<forall>n\<in>set (textNodes s). 5 \<le> node_fontSize n))"
proof -
  have h: "\<forall>e\<in>set [TransformEnd ''7'' 1 2 (1 / 10) 1 30 10, InputBlur None,
                      FontSizeChange 10, Undo]. fromSlider e"
    by simp
  from fontSize_floor [OF h, of 7] show ?thesis .
qed

text \<open>
  The handler itself does not clamp: it stores the size it is given, and the floor of
  slider changes rests on the slider's range. Called with 3, a size the slider never
  delivers, it would store 3.
\<close>

lemma handleFontSizeChange_unclamped:
  "(case run [FontSizeChange 3] (mount 1) of
      Inl err \<Rightarrow> False
    | Inr s \<Rightarrow> map node_fontSize (textNodes s) = [3])"
  by code_simp

section \<open>C3: undo followed by redo\<close>

lemma settled_bounds: "settled s \<Longrightarrow> 0 \<le> historyIndex s \<and> historyIndex s < int (length (history s))"
  by (auto simp: settled_def index_def split: if_splits)

lemma settled_nth: "settled s \<Longrightarrow> history s ! nat (historyIndex s) = textNodes s"
  by (auto simp: settled_def index_def split: if_splits)

lemma undo_step:
  assumes "settled s" and "0 < historyIndex s"
  shows "step Undo s =
         Inr (s\<lparr>historyIndex := historyIndex s - 1,
                 textNodes := history s ! nat (historyIndex s - 1), selectedId := None\<rparr>)"
proof -
  let ?s1 = "s\<lparr>historyIndex := historyIndex s - 1,
                 textNodes := history s ! nat (historyIndex s - 1), selectedId := None\<rparr>"
  from assms settled_bounds [OF assms(1)] have u: "undo s = Inr ?s1"
    by (simp add: undo_def cloneDeep_def index_def Let_def)
  from assms settled_bounds [OF assms(1)] have "settled ?s1"
    by (simp add: settled_def index_def)
  then have "historyEffect ?s1 = ?s1"
    by (rule historyEffect_settled)
  with u show ?thesis
    by (simp add: step_def)
qed

lemma app_undo_step:
  assumes "settled s" and "0 < historyIndex s"
  shows "app_step Undo s =
         Inr (s\<lparr>historyIndex := historyIndex s - 1,
                 textNodes := history s ! nat (historyIndex s - 1)\<rparr>)"
proof -
  let ?s1 = "s\<lparr>historyIndex := historyIndex s - 1,
                 textNodes := history s ! nat (historyIndex s - 1)\<rparr>"
  from assms settled_bounds [OF assms(1)] have u: "app_undo s = Inr ?s1"
    by (simp add: app_undo_def cloneDeep_def index_def Let_def)
  from assms settled_bounds [OF assms(1)] have "settled ?s1"
    by (simp add: settled_def index_def)
  then have "historyEffect ?s1 = ?s1"
    by (rule historyEffect_settled)
  with u show ?thesis
    by (simp add: app_step_def)
qed

lemma redo_step:
  assumes "settled s" and "historyIndex s < int (length (history s)) - 1"
  shows "step Redo s =
         Inr (s\<lparr>historyIndex := historyIndex s + 1,
                 textNodes := history s ! nat (historyIndex s + 1), selectedId := None\<rparr>)"
proof -
  let ?s1 = "s\<lparr>historyIndex := historyIndex s + 1,
                 textNodes := history s ! nat (historyIndex s + 1), selectedId := None\<rparr>"
  from assms settled_bounds [OF assms(1)] have u: "redo s = Inr ?s1"
    by (simp add: redo_def cloneDeep_def index_def Let_def)
  from assms settled_bounds [OF assms(1)] have "settled ?s1"
    by (simp add: settled_def index_def)
  then have "historyEffect ?s1 = ?s1"
    by (rule historyEffect_settled)
  with u show ?thesis
    by (simp add: step_def)
qed

lemma app_redo_step:
  assumes "settled s" and "historyIndex s < int (length (history s)) - 1"
  shows "app_step Redo s =
         Inr (s\<lparr>historyIndex := historyIndex s + 1,
                 textNodes := history s ! nat (historyIndex s + 1)\<rparr>)"
proof -
  let ?s1 = "s\<lparr>historyIndex := historyIndex s + 1,
                 textNodes := history s ! nat (historyIndex s + 1)\<rparr>"
  from assms settled_bounds [OF assms(1)] have u: "app_redo s = Inr ?s1"
    by (simp add: app_redo_def cloneDeep_def index_def Let_def)
  from assms settled_bounds [OF assms(1)] have "settled ?s1"
    by (simp add: settled_def index_def)
  then have "historyEffect ?s1 = ?s1"
    by (rule historyEffect_settled)
  with u show ?thesis
    by (simp add: app_step_def)
qed

text \<open>
  C3. In every settled state (the log entry at the cursor is the live object list, which
  holds after mount and after every step, see \<open>run_total\<close>) whose cursor is above 0,
  \<^verbatim>\<open>undo()\<close> installs the previous entry and an immediate \<^verbatim>\<open>redo()\<close> restores the object
  list as it was before the undo; the log and the cursor are as before too. This covers
  every cursor position strictly between 0 and the tail (and the tail itself), in both
  variants.
\<close>

theorem undo_redo_roundtrip:
  assumes "settled s" and "0 < historyIndex s"
  shows "(\<exists>s1 s2. step Undo s = Inr s1 \<and> step Redo s1 = Inr s2 \<and> textNodes s1 = history s ! nat (historyIndex s - 1) \<and>
            textNodes s2 = textNodes s \<and> history s2 = history s \<and> historyIndex s2 = historyIndex s) \<and>
         (\<exists>s1 s2. app_step Undo s = Inr s1 \<and> app_step Redo s1 = Inr s2 \<and> textNodes s1 = history s ! nat (historyIndex s - 1) \<and>
            textNodes s2 = textNodes s \<and> history s2 = history s \<and> historyIndex s2 = historyIndex s)"
proof
  let ?s1 = "s\<lparr>historyIndex := historyIndex s - 1,
                 textNodes := history s ! nat (historyIndex s - 1), selectedId := None\<rparr>"
  note b = settled_bounds [OF assms(1)]
  have u: "step Undo s = Inr ?s1"
    by (rule undo_step [OF assms])
  from assms b have s1: "settled ?s1"
    by (simp add: settled_def index_def)
  from assms b have "historyIndex ?s1 < int (length (history ?s1)) - 1"
    by simp
  from redo_step [OF s1 this] have r: "step Redo ?s1 =
      Inr (?s1\<lparr>historyIndex := historyIndex s, textNodes := history s ! nat (historyIndex s),
                selectedId := None\<rparr>)"
    by simp
  show "\<exists>s1 s2. step Undo s = Inr s1 \<and> step Redo s1 = Inr s2 \<and> textNodes s1 = history s ! nat (historyIndex s - 1) \<and>
          textNodes s2 = textNodes s \<and> history s2 = history s \<and> historyIndex s2 = historyIndex s"
    using u r settled_nth [OF assms(1)] by simp
next
  let ?s1 = "s\<lparr>historyIndex := historyIndex s - 1,
                 textNodes := history s ! nat (historyIndex s - 1)\<rparr>"
  note b = settled_bounds [OF assms(1)]
  have u: "app_step Undo s = Inr ?s1"
    by (rule app_undo_step [OF assms])
  from assms b have s1: "settled ?s1"
    by (simp add: settled_def index_def)
  from assms b have "historyIndex ?s1 < int (length (history ?s1)) - 1"
    by simp
  from app_redo_step [OF s1 this] have r: "app_step Redo ?s1 =
      Inr (?s1\<lparr>historyIndex := historyIndex s, textNodes := history s ! nat (historyIndex s)\<rparr>)"
    by simp
  show "\<exists>s1 s2. app_step Undo s = Inr s1 \<and> app_step Redo s1 = Inr s2 \<and> textNodes s1 = history s ! nat (historyIndex s - 1) \<and>
          textNodes s2 = textNodes s \<and> history s2 = history s \<and> historyIndex s2 = historyIndex s"
    using u r settled_nth [OF assms(1)] by simp
qed

text \<open>
  Witness for C3: after mount, a move to (120, 80), an add and one undo, the cursor is at
  2 in a log of 4 entries.
\<close>

theorem undo_redo_roundtrip_witness:
  "\<exists>s. run [DragEnd ''1'' 120 80, AddText 2, Undo] (mount 1) = Inr s \<and>
       historyIndex s = 2 \<and> length (history s) = 4 \<and>
       (\<exists>s1 s2. step Undo s = Inr s1 \<and> step Redo s1 = Inr s2 \<and>
          textNodes s1 = history s ! nat (historyIndex s - 1) \<and>
          textNodes s2 = textNodes s \<and> history s2 = history s \<and>
          historyIndex s2 = historyIndex s) \<and>
       (\<exists>s1 s2. app_step Undo s = Inr s1 \<and> app_step Redo s1 = Inr s2 \<and>
          textNodes s1 = history s ! nat (historyIndex s - 1) \<and>
          textNodes s2 = textNodes s \<and> history s2 = history s \<and>
          historyIndex s2 = historyIndex s)"
proof -
  from run_total [OF settled_mount, of "[DragEnd ''1'' 120 80, AddText 2, Undo]" 1]
  obtain s where r: "run [DragEnd ''1'' 120 80, AddText 2, Undo] (mount 1) = Inr s"
    and st: "settled s"
    by blast
  have "case run [DragEnd ''1'' 120 80, AddText 2, Undo] (mount 1) of
          Inl err \<Rightarrow> False
        | Inr s \<Rightarrow> historyIndex s = 2 \<and> length (history s) = 4"
    by code_simp
  with r have i: "historyIndex s = 2" "length (history s) = 4"
    by simp_all
  then have "0 < historyIndex s"
    by simp
  from undo_redo_roundtrip [OF st this] r i show ?thesis
    by blast
qed

section \<open>C4: a mutation after undo truncates the log\<close>

lemma handle_history:
  "e \<noteq> Undo \<Longrightarrow> e \<noteq> Redo \<Longrightarrow> handle e s = Inr s' \<Longrightarrow>
   history s' = history s \<and> historyIndex s' = historyIndex s"
  by (cases e)
    (auto simp: handleStageClick_def handleDragStart_def handleDragEnd_def handleTransform_def
      handleTransformEnd_def handleTextDoubleClick_def handleInputBlur_def
      handleFontSizeChange_def handleColorChange_def addTextNode_def deleteSelected_def Let_def
      split: target.splits option.splits)

lemma app_handle_history:
  "e \<noteq> Undo \<Longrightarrow> e \<noteq> Redo \<Longrightarrow> app_handle e s = Inr s' \<Longrightarrow>
   history s' = history s \<and> historyIndex s' = historyIndex s"
  by (cases e)
    (auto simp: app_handleStageClick_def app_handleDragEnd_def handleTransform_def
      app_handleTransformEnd_def app_handleTextDoubleClick_def app_handleInputBlur_def
      updateTextNode_def
      handleFontSizeChange_def handleColorChange_def addTextNode_def deleteSelected_def Let_def
      split: target.splits option.splits)

lemma historyEffect_push:
  assumes "0 \<le> historyIndex s" and "historyIndex s < int (length (history s))"
    and "history s ! nat (historyIndex s) \<noteq> textNodes s"
  shows "historyEffect s =
         s\<lparr>history := take (nat (historyIndex s + 1)) (history s) @ [textNodes s],
           historyIndex := historyIndex s + 1\<rparr>"
  using assms by (simp add: historyEffect_def isEqual_def index_def slice0_def Let_def min_def)

lemma historyEffect_textNodes: "textNodes (historyEffect s) = textNodes s"
  by (simp add: historyEffect_def Let_def)

lemma redo_at_tail: "historyIndex s = int (length (history s)) - 1 \<Longrightarrow> redo s = Inr s"
  by (simp add: redo_def)

lemma app_redo_at_tail: "historyIndex s = int (length (history s)) - 1 \<Longrightarrow> app_redo s = Inr s"
  by (simp add: app_redo_def)

lemma truncate_after:
  assumes st: "settled s" and h: "history s1 = history s" "historyIndex s1 = historyIndex s"
    and ne: "textNodes s1 \<noteq> textNodes s" and s': "s' = historyEffect s1"
  shows "history s' = take (nat (historyIndex s + 1)) (history s) @ [textNodes s'] \<and>
         historyIndex s' = historyIndex s + 1 \<and>
         historyIndex s' = int (length (history s')) - 1 \<and> settled s'"
proof -
  note b = settled_bounds [OF st]
  from settled_nth [OF st] h ne have "history s1 ! nat (historyIndex s1) \<noteq> textNodes s1"
    by simp
  with b h have "historyEffect s1 =
      s1\<lparr>history := take (nat (historyIndex s1 + 1)) (history s1) @ [textNodes s1],
         historyIndex := historyIndex s1 + 1\<rparr>"
    by (intro historyEffect_push) simp_all
  moreover from b have "int (length (take (nat (historyIndex s + 1)) (history s))) = historyIndex s + 1"
    by (simp add: min_def) linarith
  ultimately show ?thesis
    using h s' settled_historyEffect [of s1] by simp
qed

text \<open>
  C4. Let the state be settled, with the cursor anywhere in the log (for instance moved
  back by \<^verbatim>\<open>undo()\<close>), and let a gesture other than undo and redo change the object list.
  Then the step records it: the new log is the old log up to and including the cursor,
  followed by the new snapshot; every entry after the cursor is gone; the cursor is at the
  new tail, and \<^verbatim>\<open>redo()\<close> changes nothing. This holds in both variants.
\<close>

theorem branch_truncation:
  assumes "settled s" and "e \<noteq> Undo" and "e \<noteq> Redo"
  shows "(\<forall>s'. step e s = Inr s' \<and> textNodes s' \<noteq> textNodes s \<longrightarrow>
            history s' = take (nat (historyIndex s + 1)) (history s) @ [textNodes s'] \<and>
            historyIndex s' = historyIndex s + 1 \<and> step Redo s' = Inr s') \<and>
         (\<forall>s'. app_step e s = Inr s' \<and> textNodes s' \<noteq> textNodes s \<longrightarrow>
            history s' = take (nat (historyIndex s + 1)) (history s) @ [textNodes s'] \<and>
            historyIndex s' = historyIndex s + 1 \<and> app_step Redo s' = Inr s')"
proof (intro conjI allI impI)
  fix s'
  assume a: "step e s = Inr s' \<and> textNodes s' \<noteq> textNodes s"
  then obtain s1 where h: "handle e s = Inr s1" and s': "s' = historyEffect s1"
    by (auto simp: step_def split: sum.splits)
  from a s' have ne: "textNodes s1 \<noteq> textNodes s"
    by (simp add: historyEffect_textNodes)
  from handle_history [OF assms(2,3) h] have "history s1 = history s" "historyIndex s1 = historyIndex s"
    by simp_all
  from truncate_after [OF assms(1) this ne s']
  have t: "history s' = take (nat (historyIndex s + 1)) (history s) @ [textNodes s']"
    "historyIndex s' = historyIndex s + 1" "historyIndex s' = int (length (history s')) - 1"
    "settled s'"
    by blast+
  from t(1) show "history s' = take (nat (historyIndex s + 1)) (history s) @ [textNodes s']" .
  from t(2) show "historyIndex s' = historyIndex s + 1" .
  from redo_at_tail [OF t(3)] historyEffect_settled [OF t(4)] show "step Redo s' = Inr s'"
    by (simp add: step_def)
next
  fix s'
  assume a: "app_step e s = Inr s' \<and> textNodes s' \<noteq> textNodes s"
  then obtain s1 where h: "app_handle e s = Inr s1" and s': "s' = historyEffect s1"
    by (auto simp: app_step_def split: sum.splits)
  from a s' have ne: "textNodes s1 \<noteq> textNodes s"
    by (simp add: historyEffect_textNodes)
  from app_handle_history [OF assms(2,3) h] have "history s1 = history s" "historyIndex s1 = historyIndex s"
    by simp_all
  from truncate_after [OF assms(1) this ne s']
  have t: "history s' = take (nat (historyIndex s + 1)) (history s) @ [textNodes s']"
    "historyIndex s' = historyIndex s + 1" "historyIndex s' = int (length (history s')) - 1"
    "settled s'"
    by blast+
  from t(1) show "history s' = take (nat (historyIndex s + 1)) (history s) @ [textNodes s']" .
  from t(2) show "historyIndex s' = historyIndex s + 1" .
  from app_redo_at_tail [OF t(3)] historyEffect_settled [OF t(4)] show "app_step Redo s' = Inr s'"
    by (simp add: app_step_def)
qed

text \<open>
  Witness for C4 (scenario E of the specification): the log holds three entries, two
  undos move the cursor to 0, and an add follows. The new log has two entries.
\<close>

theorem branch_truncation_witness:
  "\<exists>s s'. run [AddText 2, Undo, Undo] (mount 1) = Inr s \<and> step (AddText 3) s = Inr s' \<and>
      length (history s) = 3 \<and> historyIndex s = 0 \<and>
      history s' = take (nat (historyIndex s + 1)) (history s) @ [textNodes s'] \<and>
      length (history s') = 2 \<and> historyIndex s' = 1 \<and> step Redo s' = Inr s'"
proof -
  from run_total [OF settled_mount, of "[AddText 2, Undo, Undo]" 1]
  obtain s where r: "run [AddText 2, Undo, Undo] (mount 1) = Inr s" and st: "settled s"
    by blast
  from step_total [OF st, of "AddText 3"] obtain s' where r': "step (AddText 3) s = Inr s'"
    by blast
  have "case run [AddText 2, Undo, Undo] (mount 1) of
          Inl err \<Rightarrow> False
        | Inr s \<Rightarrow>
            (case step (AddText 3) s of
               Inl err \<Rightarrow> False
             | Inr s' \<Rightarrow>
                 textNodes s' \<noteq> textNodes s \<and> length (history s) = 3 \<and>
                 historyIndex s = 0 \<and> length (history s') = 2)"
    by code_simp
  with r r' have f: "textNodes s' \<noteq> textNodes s" "length (history s) = 3"
    "historyIndex s = 0" "length (history s') = 2"
    by simp_all
  have "AddText 3 \<noteq> Undo" "AddText 3 \<noteq> Redo"
    by simp_all
  from branch_truncation [OF st this] r' f(1)
  have "history s' = take (nat (historyIndex s + 1)) (history s) @ [textNodes s'] \<and>
        historyIndex s' = historyIndex s + 1 \<and> step Redo s' = Inr s'"
    by blast
  with r r' f show ?thesis
    by auto
qed

section \<open>C9: undo and redo at the ends of the log\<close>

lemma cursorOk_init: "cursorOk init_state"
  by (simp add: cursorOk_def init_state_def)

lemma cursorOk_settled: "settled s \<Longrightarrow> cursorOk s"
  by (auto simp: cursorOk_def settled_def index_def split: if_splits)

text \<open>
  C9. In a state whose cursor is \<open>-1\<close> or points into the log (the initial state and
  every settled state, see \<open>cursorOk_init\<close> and \<open>cursorOk_settled\<close>): \<^verbatim>\<open>undo()\<close> returns the
  state unchanged (object list, selection, log, cursor and everything else) when the
  cursor is 0 or the log is empty, and \<^verbatim>\<open>redo()\<close> returns the state unchanged when the
  cursor is at the tail. No setter is called, so no render and no history effect follow.
  This holds in both variants.
\<close>

theorem undo_redo_noop:
  assumes "cursorOk s"
  shows "(historyIndex s = 0 \<or> history s = [] \<longrightarrow> undo s = Inr s \<and> app_undo s = Inr s) \<and>
         (historyIndex s = int (length (history s)) - 1 \<longrightarrow> redo s = Inr s \<and> app_redo s = Inr s)"
  using assms by (auto simp: cursorOk_def undo_def app_undo_def redo_def app_redo_def)

text \<open>
  Witness for C9: the initial state (empty log, cursor \<open>-1\<close>, which is also its tail), the
  state after the first history effect (cursor 0) and the mounted state (cursor at the
  tail).
\<close>

theorem undo_redo_noop_witness:
  "undo init_state = Inr init_state \<and> app_undo init_state = Inr init_state \<and>
   redo init_state = Inr init_state \<and> app_redo init_state = Inr init_state \<and>
   historyIndex (historyEffect init_state) = 0 \<and>
   undo (historyEffect init_state) = Inr (historyEffect init_state) \<and>
   app_undo (historyEffect init_state) = Inr (historyEffect init_state) \<and>
   historyIndex (mount 1) = int (length (history (mount 1))) - 1 \<and>
   redo (mount 1) = Inr (mount 1) \<and> app_redo (mount 1) = Inr (mount 1)"
proof -
  have e: "history init_state = []" "historyIndex init_state = int (length (history init_state)) - 1"
    by (simp_all add: init_state_def)
  have z: "historyIndex (historyEffect init_state) = 0"
    by code_simp
  have t: "historyIndex (mount 1) = int (length (history (mount 1))) - 1"
    by code_simp
  from undo_redo_noop [OF cursorOk_init] e
    undo_redo_noop [OF cursorOk_settled [OF settled_historyEffect], of init_state] z
    undo_redo_noop [OF cursorOk_settled [OF settled_mount], of 1] t
  show ?thesis
    by blast
qed

section \<open>C10: committing an edit without a selection\<close>

text \<open>
  C10. When \<^verbatim>\<open>selectedId\<close> is \<^verbatim>\<open>null\<close>, the blur handler returns at once: the state is
  unchanged, whatever the overlay input holds; in particular the objects whose
  \<^verbatim>\<open>isEditing\<close> flag is true are the same before and after. This holds in both variants.
\<close>

theorem commit_without_selection:
  assumes "selectedId s = None"
  shows "handleInputBlur v s = s \<and> app_handleInputBlur s = s \<and>
         filter editing (textNodes (handleInputBlur v s)) = filter editing (textNodes s) \<and>
         filter editing (textNodes (app_handleInputBlur s)) = filter editing (textNodes s)"
  using assms by (simp add: handleInputBlur_def app_handleInputBlur_def truthy_def)

text \<open>
  Witness for C10: in \<^verbatim>\<open>part_000\<close>, a double click, a commit and an undo lead to a state with
  no selection in which the object is in edit mode again; the blur handler leaves it so.
\<close>

theorem commit_without_selection_witness:
  "\<exists>s. run [TextDoubleClick ''1'', InputBlur (Some ''Hello''), Undo] (mount 1) = Inr s \<and>
       selectedId s = None \<and> map node_isEditing (textNodes s) = [Some True] \<and>
       handleInputBlur (Some ''Bye'') s = s \<and> app_handleInputBlur s = s \<and>
       filter editing (textNodes (handleInputBlur (Some ''Bye'') s)) = filter editing (textNodes s) \<and>
       filter editing (textNodes (app_handleInputBlur s)) = filter editing (textNodes s)"
proof -
  from run_total [OF settled_mount, of "[TextDoubleClick ''1'', InputBlur (Some ''Hello''), Undo]" 1]
  obtain s where r: "run [TextDoubleClick ''1'', InputBlur (Some ''Hello''), Undo] (mount 1) = Inr s"
    by blast
  have "case run [TextDoubleClick ''1'', InputBlur (Some ''Hello''), Undo] (mount 1) of
          Inl err \<Rightarrow> False
        | Inr s \<Rightarrow> selectedId s = None \<and> map node_isEditing (textNodes s) = [Some True]"
    by code_simp
  with r have f: "selectedId s = None" "map node_isEditing (textNodes s) = [Some True]"
    by simp_all
  from commit_without_selection [OF f(1), of "Some ''Bye''"] r f show ?thesis
    by (intro exI [of _ s]) simp
qed

section \<open>C7: committing an edit\<close>

text \<open>
  What the blur handlers write, for any state with a non-empty id selected and any text
  of the overlay: the length and order of the list are kept; every object with the
  selected id gets a text, the current global font size and colour and a cleared edit
  flag, and keeps its other fields; every other object is unchanged. The text is the
  overlay's text (\<^verbatim>\<open>part_000\<close>, with \<^verbatim>\<open>editText\<close> standing in for an empty or absent one)
  or \<^verbatim>\<open>editText\<close> (\<^verbatim>\<open>App.tsx\<close>).
\<close>

lemma handleInputBlur_writes:
  assumes "selectedId s = Some sel" and "sel \<noteq> []" and "k < length (textNodes s)"
  shows "length (textNodes (handleInputBlur v s)) = length (textNodes s) \<and>
         length (textNodes (app_handleInputBlur s)) = length (textNodes s) \<and>
         (node_id (textNodes s ! k) = sel \<longrightarrow>
            committed s (if newText = [] then editText s else newText) (textNodes s ! k)
              (textNodes (handleInputBlur (Some newText) s) ! k) \<and>
            committed s (editText s) (textNodes s ! k) (textNodes (handleInputBlur None s) ! k) \<and>
            committed s (editText s) (textNodes s ! k) (textNodes (app_handleInputBlur s) ! k)) \<and>
         (node_id (textNodes s ! k) \<noteq> sel \<longrightarrow>
            textNodes (handleInputBlur v s) ! k = textNodes s ! k \<and>
            textNodes (app_handleInputBlur s) ! k = textNodes s ! k)"
  using assms
  by (auto simp: handleInputBlur_def app_handleInputBlur_def updateTextNode_def truthy_def
      committed_def Let_def split: option.splits)

text \<open>
  The overlay's \<^verbatim>\<open>onChange\<close> copies the input's text into the edit buffer, so a commit that
  follows a change of the input to \<open>v\<close> writes \<open>v\<close>, empty or not, in both variants.
\<close>

lemma commit_after_change:
  assumes "selectedId s = Some sel" and "sel \<noteq> []" and "k < length (textNodes s)"
    and "node_id (textNodes s ! k) = sel"
  shows "(\<exists>s1 s2. step (InputChange v) s = Inr s1 \<and> step (InputBlur (Some v)) s1 = Inr s2 \<and>
            node_text (textNodes s2 ! k) = v) \<and>
         (\<exists>s1 s2. app_step (InputChange v) s = Inr s1 \<and> app_step (InputBlur (Some v)) s1 = Inr s2 \<and>
            node_text (textNodes s2 ! k) = v)"
  using assms
  by (simp add: step_def app_step_def handleInputBlur_def app_handleInputBlur_def
      updateTextNode_def historyEffect_def truthy_def Let_def)

text \<open>
  In every run of the interface the overlay, when mounted, shows the edit buffer: it
  mounts with \<^verbatim>\<open>defaultValue={editText}\<close>, a change of its text goes through \<^verbatim>\<open>onChange\<close>, the
  double click sets both to \<^verbatim>\<open>node.text\<close>, a commit stores the committed text in the buffer,
  and no other handler touches either. No step of the interface raises.
\<close>

lemma historyEffect_editText: "editText (historyEffect s) = editText s"
  by (simp add: historyEffect_def Let_def)

lemma handle_editText:
  assumes "handle e s = Inr s'" and "\<forall>v. e \<noteq> InputChange v" and "\<forall>v. e \<noteq> InputBlur v"
    and "\<forall>i. e \<noteq> TextDoubleClick i"
  shows "editText s' = editText s"
  using assms
  by (cases e)
    (auto simp: handleStageClick_def handleDragStart_def handleDragEnd_def handleTransform_def
      handleTransformEnd_def handleFontSizeChange_def handleColorChange_def addTextNode_def
      deleteSelected_def undo_def redo_def cloneDeep_def Let_def
      split: target.splits option.splits if_splits)

lemma synced_render: "synced (s, overlay) \<Longrightarrow> editText s' = editText s \<Longrightarrow> synced (s', render overlay s')"
  by (auto simp: render_def split: option.splits)

lemma synced_render_Some: "editText s' = v \<Longrightarrow> synced (s', render (Some v) s')"
  by (auto simp: render_def split: option.splits)

lemma handleInputBlur_synced: "editText (handleInputBlur (Some (editText s)) s) = editText s"
  by (simp add: handleInputBlur_def Let_def)

lemma handleTextDoubleClick_editText:
  "doubleClicked i s = Some node \<Longrightarrow> editText (handleTextDoubleClick i s) = node_text node"
  by (auto simp: doubleClicked_def handleTextDoubleClick_def split: if_splits)

lemma handleTextDoubleClick_skip: "doubleClicked i s = None \<Longrightarrow> handleTextDoubleClick i s = s"
  by (auto simp: doubleClicked_def handleTextDoubleClick_def split: if_splits)

lemma synced_ui_step:
  assumes "synced u" and "ui_step e u = Inr u'"
  shows "synced u'"
proof -
  obtain s overlay where u: "u = (s, overlay)"
    by (cases u)
  show ?thesis
  proof (cases e)
    case (InputChange v)
    with assms u show ?thesis
      by (auto simp: step_def historyEffect_editText intro!: synced_render_Some
          split: option.splits)
  next
    case (InputBlur x)
    with assms u show ?thesis
      by (auto simp: step_def historyEffect_editText handleInputBlur_synced
          intro!: synced_render_Some split: option.splits)
  next
    case (TextDoubleClick i)
    show ?thesis
    proof (cases "doubleClicked i s")
      case None
      with assms u TextDoubleClick show ?thesis
        by (auto simp: step_def historyEffect_editText handleTextDoubleClick_skip
            intro!: synced_render)
    next
      case (Some node)
      with assms u TextDoubleClick show ?thesis
        by (auto simp: step_def historyEffect_editText handleTextDoubleClick_editText
            split: option.splits)
    qed
  next
    case (StageClick t)
    with assms u handle_editText [of e s] show ?thesis
      by (auto simp: step_def historyEffect_editText intro!: synced_render split: sum.splits)
  next
    case DragStart
    with assms u handle_editText [of e s] show ?thesis
      by (auto simp: step_def historyEffect_editText intro!: synced_render split: sum.splits)
  next
    case (DragEnd i ex ey)
    with assms u handle_editText [of e s] show ?thesis
      by (auto simp: step_def historyEffect_editText intro!: synced_render split: sum.splits)
  next
    case (Transform i scaleX)
    with assms u handle_editText [of e s] show ?thesis
      by (auto simp: step_def historyEffect_editText intro!: synced_render split: sum.splits)
  next
    case (TransformEnd i ex ey scaleX scaleY w h)
    with assms u handle_editText [of e s] show ?thesis
      by (auto simp: step_def historyEffect_editText intro!: synced_render split: sum.splits)
  next
    case (FontSizeChange z)
    with assms u handle_editText [of e s] show ?thesis
      by (auto simp: step_def historyEffect_editText intro!: synced_render split: sum.splits)
  next
    case (ColorChange c)
    with assms u handle_editText [of e s] show ?thesis
      by (auto simp: step_def historyEffect_editText intro!: synced_render split: sum.splits)
  next
    case (AddText t)
    with assms u handle_editText [of e s] show ?thesis
      by (auto simp: step_def historyEffect_editText intro!: synced_render split: sum.splits)
  next
    case Undo
    with assms u handle_editText [of e s] show ?thesis
      by (auto simp: step_def historyEffect_editText intro!: synced_render split: sum.splits)
  next
    case Redo
    with assms u handle_editText [of e s] show ?thesis
      by (auto simp: step_def historyEffect_editText intro!: synced_render split: sum.splits)
  next
    case DeleteSelected
    with assms u handle_editText [of e s] show ?thesis
      by (auto simp: step_def historyEffect_editText intro!: synced_render split: sum.splits)
  qed
qed

lemma synced_ui_run: "synced u \<Longrightarrow> ui_run evs u = Inr u' \<Longrightarrow> synced u'"
proof (induction evs arbitrary: u)
  case Nil
  then show ?case by simp
next
  case (Cons e evs)
  from Cons.prems(2) obtain u1 where u1: "ui_step e u = Inr u1" and r: "ui_run evs u1 = Inr u'"
    by (auto split: sum.splits)
  from synced_ui_step [OF Cons.prems(1) u1] have "synced u1" .
  from Cons.IH [OF this r] show ?case .
qed

lemma ui_step_total:
  assumes "settled s"
  shows "\<exists>s' overlay'. ui_step e (s, overlay) = Inr (s', overlay') \<and> settled s'"
proof (cases e)
  case (InputChange v)
  with step_total [OF assms, of "InputChange v"] assms show ?thesis
    by (cases overlay) auto
next
  case (InputBlur x)
  show ?thesis
  proof (cases overlay)
    case None
    with InputBlur assms show ?thesis by simp
  next
    case (Some v)
    with InputBlur step_total [OF assms, of "InputBlur (Some v)"] show ?thesis
      by auto
  qed
qed (use step_total [OF assms, of e] in auto)

lemma ui_run_total:
  "settled s \<Longrightarrow> \<exists>s' overlay'. ui_run evs (s, overlay) = Inr (s', overlay') \<and> settled s'"
proof (induction evs arbitrary: s overlay)
  case Nil
  then show ?case by simp
next
  case (Cons e evs)
  from ui_step_total [OF Cons.prems, of e overlay] obtain s1 o1
    where "ui_step e (s, overlay) = Inr (s1, o1)" "settled s1"
    by blast
  with Cons.IH [of s1 o1] show ?case by simp
qed

text \<open>
  C7. Let a run of the interface of \<^verbatim>\<open>part_000\<close> end with the overlay mounted and showing
  \<open>newText\<close>, any string, the empty one included, and with a non-empty id selected. The
  blur/Enter handler, which reads \<open>newText\<close> from the overlay, keeps the length and order
  of the object list, writes exactly \<open>newText\<close> into the content of every object with the
  selected id, gives it the current global font size and colour, clears its edit flag and
  keeps its other fields; every other object is unchanged. The handler of \<^verbatim>\<open>App.tsx\<close>
  does the same in every state, where \<open>newText\<close> is \<^verbatim>\<open>editText\<close>, the text of its controlled
  input.
\<close>

theorem commitEdit_writes:
  assumes "ui_run evs (mount now, None) = Inr (s, Some newText)"
    and "selectedId s = Some sel" and "sel \<noteq> []" and "k < length (textNodes s)"
  shows "length (textNodes (handleInputBlur (Some newText) s)) = length (textNodes s) \<and>
         (node_id (textNodes s ! k) = sel \<longrightarrow>
            committed s newText (textNodes s ! k)
              (textNodes (handleInputBlur (Some newText) s) ! k)) \<and>
         (node_id (textNodes s ! k) \<noteq> sel \<longrightarrow>
            textNodes (handleInputBlur (Some newText) s) ! k = textNodes s ! k) \<and>
         (\<forall>a. selectedId a = Some sel \<and> k < length (textNodes a) \<and> editText a = newText \<longrightarrow>
            length (textNodes (app_handleInputBlur a)) = length (textNodes a) \<and>
            (node_id (textNodes a ! k) = sel \<longrightarrow>
               committed a newText (textNodes a ! k) (textNodes (app_handleInputBlur a) ! k)) \<and>
            (node_id (textNodes a ! k) \<noteq> sel \<longrightarrow>
               textNodes (app_handleInputBlur a) ! k = textNodes a ! k))"
proof -
  have "synced (mount now, None)"
    by simp
  from synced_ui_run [OF this assms(1)] have e: "editText s = newText"
    by simp
  have c: "(if newText = [] then editText s else newText) = newText"
    using e by simp
  from handleInputBlur_writes [OF assms(2,3,4), of "Some newText" newText]
  have "length (textNodes (handleInputBlur (Some newText) s)) = length (textNodes s) \<and>
         (node_id (textNodes s ! k) = sel \<longrightarrow>
            committed s newText (textNodes s ! k)
              (textNodes (handleInputBlur (Some newText) s) ! k)) \<and>
         (node_id (textNodes s ! k) \<noteq> sel \<longrightarrow>
            textNodes (handleInputBlur (Some newText) s) ! k = textNodes s ! k)"
    unfolding c by blast
  moreover have "\<forall>a. selectedId a = Some sel \<and> k < length (textNodes a) \<and> editText a = newText \<longrightarrow>
            length (textNodes (app_handleInputBlur a)) = length (textNodes a) \<and>
            (node_id (textNodes a ! k) = sel \<longrightarrow>
               committed a newText (textNodes a ! k) (textNodes (app_handleInputBlur a) ! k)) \<and>
            (node_id (textNodes a ! k) \<noteq> sel \<longrightarrow>
               textNodes (app_handleInputBlur a) ! k = textNodes a ! k)"
    using assms(3) handleInputBlur_writes [of _ sel k]
    by blast
  ultimately show ?thesis
    by blast
qed

text \<open>
  Witness for C7: after a double click on the object, the input is changed to
  \<^verbatim>\<open>Hello\<close>, respectively emptied; the commit writes \<^verbatim>\<open>Hello\<close>, respectively the empty
  string.
\<close>

theorem commitEdit_writes_witness:
  "(\<exists>s. ui_run [TextDoubleClick ''1'', InputChange ''Hello''] (mount 1, None) = Inr (s, Some ''Hello'') \<and>
        committed s ''Hello'' (textNodes s ! 0) (textNodes (handleInputBlur (Some ''Hello'') s) ! 0) \<and>
        committed s ''Hello'' (textNodes s ! 0) (textNodes (app_handleInputBlur s) ! 0)) \<and>
   (\<exists>s. ui_run [TextDoubleClick ''1'', InputChange []] (mount 1, None) = Inr (s, Some []) \<and>
        committed s [] (textNodes s ! 0) (textNodes (handleInputBlur (Some []) s) ! 0) \<and>
        committed s [] (textNodes s ! 0) (textNodes (app_handleInputBlur s) ! 0))"
proof
  from ui_run_total [OF settled_mount, of "[TextDoubleClick ''1'', InputChange ''Hello'']" 1 None]
  obtain s ov where r0: "ui_run [TextDoubleClick ''1'', InputChange ''Hello''] (mount 1, None) = Inr (s, ov)"
    by blast
  have "case ui_run [TextDoubleClick ''1'', InputChange ''Hello''] (mount 1, None) of
          Inl err \<Rightarrow> False
        | Inr (s, ov) \<Rightarrow> ov = Some ''Hello'' \<and> selectedId s = Some ''1'' \<and>
            0 < length (textNodes s) \<and> node_id (textNodes s ! 0) = ''1'' \<and>
            editText s = ''Hello''"
    by code_simp
  with r0 have r: "ui_run [TextDoubleClick ''1'', InputChange ''Hello''] (mount 1, None) = Inr (s, Some ''Hello'')"
    and f: "selectedId s = Some ''1''" "0 < length (textNodes s)"
    "node_id (textNodes s ! 0) = ''1''" "editText s = ''Hello''"
    by simp_all
  have "''1'' \<noteq> []"
    by simp
  from commitEdit_writes [OF r f(1) this f(2)] f r
  show "\<exists>s. ui_run [TextDoubleClick ''1'', InputChange ''Hello''] (mount 1, None) = Inr (s, Some ''Hello'') \<and>
        committed s ''Hello'' (textNodes s ! 0) (textNodes (handleInputBlur (Some ''Hello'') s) ! 0) \<and>
        committed s ''Hello'' (textNodes s ! 0) (textNodes (app_handleInputBlur s) ! 0)"
    by (intro exI [of _ s]) simp
next
  from ui_run_total [OF settled_mount, of "[TextDoubleClick ''1'', InputChange []]" 1 None]
  obtain s ov where r0: "ui_run [TextDoubleClick ''1'', InputChange []] (mount 1, None) = Inr (s, ov)"
    by blast
  have "case ui_run [TextDoubleClick ''1'', InputChange []] (mount 1, None) of
          Inl err \<Rightarrow> False
        | Inr (s, ov) \<Rightarrow> ov = Some [] \<and> selectedId s = Some ''1'' \<and>
            0 < length (textNodes s) \<and> node_id (textNodes s ! 0) = ''1'' \<and>
            editText s = []"
    by code_simp
  with r0 have r: "ui_run [TextDoubleClick ''1'', InputChange []] (mount 1, None) = Inr (s, Some [])"
    and f: "selectedId s = Some ''1''" "0 < length (textNodes s)"
    "node_id (textNodes s ! 0) = ''1''" "editText s = []"
    by simp_all
  have "''1'' \<noteq> []"
    by simp
  from commitEdit_writes [OF r f(1) this f(2)] f r
  show "\<exists>s. ui_run [TextDoubleClick ''1'', InputChange []] (mount 1, None) = Inr (s, Some []) \<and>
        committed s [] (textNodes s ! 0) (textNodes (handleInputBlur (Some []) s) ! 0) \<and>
        committed s [] (textNodes s ! 0) (textNodes (app_handleInputBlur s) ! 0)"
    by (intro exI [of _ s]) simp
qed

text \<open>
  The handler of \<^verbatim>\<open>part_000\<close> takes \<^verbatim>\<open>editText\<close> for an empty overlay text
  (\<^verbatim>\<open>textInputRef.current?.value || editText\<close>). Called with an empty overlay text while the
  buffer is not empty, it would write the buffer; by \<open>synced_ui_run\<close> no run of the
  interface makes such a call.
\<close>

lemma handleInputBlur_fallback:
  "(case run [TextDoubleClick ''1'', InputBlur (Some [])] (mount 1) of
      Inl err \<Rightarrow> False
    | Inr s \<Rightarrow> map node_text (textNodes s) = [''Double click to edit''])"
  by code_simp

section \<open>C8: distinct ids\<close>

lemma ids_transformed: "node_id (transformed i ex ey scaleX scaleY w h n) = node_id n"
  by (simp add: transformed_def)

lemma handle_ids:
  assumes "handle e s = Inr s'" and "e \<noteq> Undo" and "e \<noteq> Redo" and "e \<noteq> DeleteSelected"
    and "\<forall>now. e \<noteq> AddText now"
  shows "map node_id (textNodes s') = map node_id (textNodes s)"
  using assms
  by (cases e)
    (auto simp: handleStageClick_def handleDragStart_def handleDragEnd_def handleTransform_def
      handleTransformEnd_def handleTextDoubleClick_def handleInputBlur_def ids_transformed
      handleFontSizeChange_def handleColorChange_def Let_def
      split: target.splits option.splits)

lemma app_handle_ids:
  assumes "app_handle e s = Inr s'" and "e \<noteq> Undo" and "e \<noteq> Redo" and "e \<noteq> DeleteSelected"
    and "\<forall>now. e \<noteq> AddText now"
  shows "map node_id (textNodes s') = map node_id (textNodes s)"
  using assms
  by (cases e)
    (auto simp: app_handleStageClick_def app_handleDragEnd_def handleTransform_def
      app_handleTransformEnd_def app_handleTextDoubleClick_def app_handleInputBlur_def
      updateTextNode_def ids_transformed
      handleFontSizeChange_def handleColorChange_def Let_def
      split: target.splits option.splits)

lemma idsInv_historyEffect: "idsInv s \<Longrightarrow> idsInv (historyEffect s)"
  by (auto simp: idsInv_def historyEffect_def slice0_def Let_def dest: in_set_takeD)

lemma index_in_set: "index xs i = Some x \<Longrightarrow> x \<in> set xs"
  by (auto simp: index_def split: if_splits)

lemma idsInv_undo: "idsInv s \<Longrightarrow> undo s = Inr s' \<Longrightarrow> idsInv s'"
  by (auto simp: idsInv_def undo_def cloneDeep_def Let_def dest!: index_in_set
      split: if_splits option.splits)

lemma idsInv_redo: "idsInv s \<Longrightarrow> redo s = Inr s' \<Longrightarrow> idsInv s'"
  by (auto simp: idsInv_def redo_def cloneDeep_def Let_def dest!: index_in_set
      split: if_splits option.splits)

lemma idsInv_app_undo: "idsInv s \<Longrightarrow> app_undo s = Inr s' \<Longrightarrow> idsInv s'"
  by (auto simp: idsInv_def app_undo_def cloneDeep_def Let_def dest!: index_in_set
      split: if_splits option.splits)

lemma idsInv_app_redo: "idsInv s \<Longrightarrow> app_redo s = Inr s' \<Longrightarrow> idsInv s'"
  by (auto simp: idsInv_def app_redo_def cloneDeep_def Let_def dest!: index_in_set
      split: if_splits option.splits)

lemma idsInv_deleteSelected: "idsInv s \<Longrightarrow> idsInv (deleteSelected s)"
  by (simp add: idsInv_def deleteSelected_def distinct_map_filter)

lemma idsInv_addTextNode:
  "idsInv s \<Longrightarrow> toString now \<notin> set (map node_id (textNodes s)) \<Longrightarrow> idsInv (addTextNode now s)"
  by (simp add: idsInv_def addTextNode_def Let_def)

lemma idsInv_handle:
  assumes "idsInv s" and "freshAdd e s" and "handle e s = Inr s'"
  shows "idsInv s'"
proof (cases "e = Undo \<or> e = Redo \<or> e = DeleteSelected \<or> (\<exists>now. e = AddText now)")
  case True
  with assms show ?thesis
    by (auto simp: idsInv_deleteSelected idsInv_addTextNode dest: idsInv_undo idsInv_redo)
next
  case False
  with assms(3) have "map node_id (textNodes s') = map node_id (textNodes s)"
    by (intro handle_ids) auto
  moreover from False assms(3) have "history s' = history s"
    using handle_history [of e s s'] by simp
  ultimately show ?thesis
    using assms(1) by (simp add: idsInv_def)
qed

lemma idsInv_app_handle:
  assumes "idsInv s" and "freshAdd e s" and "app_handle e s = Inr s'"
  shows "idsInv s'"
proof (cases "e = Undo \<or> e = Redo \<or> e = DeleteSelected \<or> (\<exists>now. e = AddText now)")
  case True
  with assms show ?thesis
    by (auto simp: idsInv_deleteSelected idsInv_addTextNode
        dest: idsInv_app_undo idsInv_app_redo)
next
  case False
  with assms(3) have "map node_id (textNodes s') = map node_id (textNodes s)"
    by (intro app_handle_ids) auto
  moreover from False assms(3) have "history s' = history s"
    using app_handle_history [of e s s'] by simp
  ultimately show ?thesis
    using assms(1) by (simp add: idsInv_def)
qed

lemma idsInv_step: "idsInv s \<Longrightarrow> freshAdd e s \<Longrightarrow> step e s = Inr s' \<Longrightarrow> idsInv s'"
  by (auto simp: step_def split: sum.splits dest: idsInv_handle intro: idsInv_historyEffect)

lemma idsInv_app_step: "idsInv s \<Longrightarrow> freshAdd e s \<Longrightarrow> app_step e s = Inr s' \<Longrightarrow> idsInv s'"
  by (auto simp: app_step_def split: sum.splits dest: idsInv_app_handle
      intro: idsInv_historyEffect)

lemma idsInv_run:
  "idsInv s \<Longrightarrow> guarded freshAdd step evs s \<Longrightarrow> run evs s = Inr s' \<Longrightarrow> idsInv s'"
proof (induction evs arbitrary: s)
  case Nil
  then show ?case by simp
next
  case (Cons e evs)
  from Cons.prems(3) obtain s1 where s1: "step e s = Inr s1" and r: "run evs s1 = Inr s'"
    by (auto split: sum.splits)
  from Cons.prems(2) s1 have g: "freshAdd e s" "guarded freshAdd step evs s1"
    by simp_all
  from idsInv_step [OF Cons.prems(1) g(1) s1] have "idsInv s1" .
  from Cons.IH [OF this g(2) r] show ?case .
qed

lemma idsInv_app_run:
  "idsInv s \<Longrightarrow> guarded freshAdd app_step evs s \<Longrightarrow> app_run evs s = Inr s' \<Longrightarrow> idsInv s'"
proof (induction evs arbitrary: s)
  case Nil
  then show ?case by simp
next
  case (Cons e evs)
  from Cons.prems(3) obtain s1 where s1: "app_step e s = Inr s1" and r: "app_run evs s1 = Inr s'"
    by (auto split: sum.splits)
  from Cons.prems(2) s1 have g: "freshAdd e s" "guarded freshAdd app_step evs s1"
    by simp_all
  from idsInv_app_step [OF Cons.prems(1) g(1) s1] have "idsInv s1" .
  from Cons.IH [OF this g(2) r] show ?case .
qed

lemma idsInv_mount: "idsInv (mount now)"
  by (simp add: mount_def historyEffect_def init_state_def addTextNode_def isEqual_def
      index_def slice0_def idsInv_def Let_def)

lemma digit_inj: "a < 10 \<Longrightarrow> b < 10 \<Longrightarrow> digit a = digit b \<Longrightarrow> a = b"
proof -
  assume a: "a < 10" and b: "b < 10" and e: "digit a = digit b"
  from a have "a \<in> {0, 1, 2, 3, 4, 5, 6, 7, 8, 9}" by auto
  moreover from b have "b \<in> {0, 1, 2, 3, 4, 5, 6, 7, 8, 9}" by auto
  ultimately show "a = b" using e
    by (auto simp: digit_def)
qed

lemma toString_nonempty: "toString n \<noteq> []"
  by (subst toString.simps) simp

lemma toString_length_one: "length (toString n) = 1 \<longleftrightarrow> n < 10"
  by (subst toString.simps) (simp add: toString_nonempty)

lemma toString_inj: "toString n = toString m \<Longrightarrow> n = m"
proof (induction n arbitrary: m rule: toString.induct)
  case (1 n)
  show ?case
  proof (cases "n < 10")
    case True
    with "1.prems" toString_length_one [of n] toString_length_one [of m] have m: "m < 10"
      by simp
    with True "1.prems" have "digit n = digit m"
      by (simp add: toString.simps [of n] toString.simps [of m])
    with True m show ?thesis
      by (rule digit_inj)
  next
    case False
    with "1.prems" toString_length_one [of n] toString_length_one [of m] have m: "\<not> m < 10"
      by simp
    with False "1.prems" have e: "toString (n div 10) = toString (m div 10)"
      and d: "digit (n mod 10) = digit (m mod 10)"
      by (simp_all add: toString.simps [of n] toString.simps [of m])
    from "1.IH" [OF False e] have "n div 10 = m div 10" .
    moreover from d have "n mod 10 = m mod 10"
      by (intro digit_inj) simp_all
    ultimately show ?thesis
      by (metis div_mult_mod_eq)
  qed
qed

lemma knownIds_mono: "knownIds T s \<Longrightarrow> T \<subseteq> T' \<Longrightarrow> knownIds T' s"
  unfolding knownIds_def by (meson image_mono order_trans)

lemma knownIds_historyEffect: "knownIds T s \<Longrightarrow> knownIds T (historyEffect s)"
  by (auto simp: knownIds_def historyEffect_def slice0_def Let_def simp del: set_map
      dest!: in_set_takeD)

lemma knownIds_frame:
  "knownIds T s \<Longrightarrow> map node_id (textNodes s') = map node_id (textNodes s) \<Longrightarrow>
   history s' = history s \<Longrightarrow> knownIds T s'"
  by (simp add: knownIds_def del: set_map)

lemma knownIds_undo: "knownIds T s \<Longrightarrow> undo s = Inr s' \<Longrightarrow> knownIds T s'"
  by (auto simp: knownIds_def undo_def cloneDeep_def Let_def simp del: set_map
      dest!: index_in_set split: if_splits option.splits)

lemma knownIds_redo: "knownIds T s \<Longrightarrow> redo s = Inr s' \<Longrightarrow> knownIds T s'"
  by (auto simp: knownIds_def redo_def cloneDeep_def Let_def simp del: set_map
      dest!: index_in_set split: if_splits option.splits)

lemma knownIds_app_undo: "knownIds T s \<Longrightarrow> app_undo s = Inr s' \<Longrightarrow> knownIds T s'"
  by (auto simp: knownIds_def app_undo_def cloneDeep_def Let_def simp del: set_map
      dest!: index_in_set split: if_splits option.splits)

lemma knownIds_app_redo: "knownIds T s \<Longrightarrow> app_redo s = Inr s' \<Longrightarrow> knownIds T s'"
  by (auto simp: knownIds_def app_redo_def cloneDeep_def Let_def simp del: set_map
      dest!: index_in_set split: if_splits option.splits)

lemma knownIds_deleteSelected: "knownIds T s \<Longrightarrow> knownIds T (deleteSelected s)"
  by (auto simp: knownIds_def deleteSelected_def)

lemma knownIds_addTextNode: "knownIds T s \<Longrightarrow> knownIds (insert now T) (addTextNode now s)"
proof -
  assume "knownIds T s"
  then have "knownIds (insert now T) s"
    by (rule knownIds_mono) auto
  then show ?thesis
    by (simp add: knownIds_def addTextNode_def Let_def)
qed

lemma knownIds_handle:
  assumes "knownIds T s" and "handle e s = Inr s'"
  shows "knownIds (T \<union> set (clockReadings [e])) s'"
proof (cases "e = Undo \<or> e = Redo \<or> e = DeleteSelected \<or> (\<exists>now. e = AddText now)")
  case True
  with assms show ?thesis
    by (auto simp: knownIds_deleteSelected knownIds_addTextNode
        dest: knownIds_undo knownIds_redo)
next
  case False
  with assms(2) have "map node_id (textNodes s') = map node_id (textNodes s)"
    using handle_ids [of e s s'] by simp
  moreover from False assms(2) have "history s' = history s"
    using handle_history [of e s s'] by simp
  ultimately have "knownIds T s'"
    using assms(1) by (rule knownIds_frame [rotated])
  moreover from False have "clockReadings [e] = []"
    by (cases e) simp_all
  ultimately show ?thesis
    by simp
qed

lemma knownIds_app_handle:
  assumes "knownIds T s" and "app_handle e s = Inr s'"
  shows "knownIds (T \<union> set (clockReadings [e])) s'"
proof (cases "e = Undo \<or> e = Redo \<or> e = DeleteSelected \<or> (\<exists>now. e = AddText now)")
  case True
  with assms show ?thesis
    by (auto simp: knownIds_deleteSelected knownIds_addTextNode
        dest: knownIds_app_undo knownIds_app_redo)
next
  case False
  with assms(2) have "map node_id (textNodes s') = map node_id (textNodes s)"
    using app_handle_ids [of e s s'] by simp
  moreover from False assms(2) have "history s' = history s"
    using app_handle_history [of e s s'] by simp
  ultimately have "knownIds T s'"
    using assms(1) by (rule knownIds_frame [rotated])
  moreover from False have "clockReadings [e] = []"
    by (cases e) simp_all
  ultimately show ?thesis
    by simp
qed

lemma knownIds_fresh:
  "knownIds T s \<Longrightarrow> set (clockReadings [e]) \<inter> T = {} \<Longrightarrow> freshAdd e s"
proof (cases e)
  case (AddText now)
  assume k: "knownIds T s" and d: "set (clockReadings [e]) \<inter> T = {}"
  from d AddText have "now \<notin> T"
    by simp
  then have "toString now \<notin> toString ` T"
    by (auto dest: toString_inj)
  with k AddText show ?thesis
    by (auto simp: knownIds_def simp del: set_map)
qed simp_all

lemma clockReadings_Cons: "clockReadings (e # es) = clockReadings [e] @ clockReadings es"
  by (cases e) simp_all

lemma fresh_of_clock:
  "knownIds T s \<Longrightarrow> distinct (clockReadings evs) \<Longrightarrow> set (clockReadings evs) \<inter> T = {} \<Longrightarrow>
   guarded freshAdd step evs s"
proof (induction evs arbitrary: T s)
  case Nil
  then show ?case by simp
next
  case (Cons e evs)
  from Cons.prems(2,3) have d: "distinct (clockReadings evs)"
    and e: "set (clockReadings [e]) \<inter> T = {}"
    and r: "set (clockReadings evs) \<inter> (T \<union> set (clockReadings [e])) = {}"
    by (auto simp: clockReadings_Cons [of e evs])
  from knownIds_fresh [OF Cons.prems(1) e] have f: "freshAdd e s" .
  show ?case
  proof (cases "step e s")
    case (Inl err)
    with f show ?thesis by simp
  next
    case (Inr s1)
    then obtain s0 where s0: "handle e s = Inr s0" "s1 = historyEffect s0"
      by (auto simp: step_def split: sum.splits)
    from knownIds_handle [OF Cons.prems(1) s0(1)] s0(2)
    have "knownIds (T \<union> set (clockReadings [e])) s1"
      by (simp add: knownIds_historyEffect)
    from Cons.IH [OF this d r] f Inr show ?thesis by simp
  qed
qed

lemma app_fresh_of_clock:
  "knownIds T s \<Longrightarrow> distinct (clockReadings evs) \<Longrightarrow> set (clockReadings evs) \<inter> T = {} \<Longrightarrow>
   guarded freshAdd app_step evs s"
proof (induction evs arbitrary: T s)
  case Nil
  then show ?case by simp
next
  case (Cons e evs)
  from Cons.prems(2,3) have d: "distinct (clockReadings evs)"
    and e: "set (clockReadings [e]) \<inter> T = {}"
    and r: "set (clockReadings evs) \<inter> (T \<union> set (clockReadings [e])) = {}"
    by (auto simp: clockReadings_Cons [of e evs])
  from knownIds_fresh [OF Cons.prems(1) e] have f: "freshAdd e s" .
  show ?case
  proof (cases "app_step e s")
    case (Inl err)
    with f show ?thesis by simp
  next
    case (Inr s1)
    then obtain s0 where s0: "app_handle e s = Inr s0" "s1 = historyEffect s0"
      by (auto simp: app_step_def split: sum.splits)
    from knownIds_app_handle [OF Cons.prems(1) s0(1)] s0(2)
    have "knownIds (T \<union> set (clockReadings [e])) s1"
      by (simp add: knownIds_historyEffect)
    from Cons.IH [OF this d r] f Inr show ?thesis by simp
  qed
qed

lemma knownIds_mount: "knownIds {now} (mount now)"
  by (simp add: mount_def historyEffect_def init_state_def addTextNode_def isEqual_def
      index_def slice0_def knownIds_def Let_def)

text \<open>
  When the clock readings of the mount and of the adds of a run are pairwise distinct,
  every add of the run is fresh, in both variants.
\<close>

lemma distinct_clock_fresh:
  assumes "distinct (now # clockReadings evs)"
  shows "guarded freshAdd step evs (mount now) \<and> guarded freshAdd app_step evs (mount now)"
  using assms fresh_of_clock [OF knownIds_mount, of evs now]
    app_fresh_of_clock [OF knownIds_mount, of evs now]
  by simp

text \<open>
  C8, as amended. Let every \<^verbatim>\<open>add()\<close> of a run read a clock value whose decimal string is
  not the id of an object in the list at that moment (as is the case when the readings
  of \<^verbatim>\<open>Date.now()\<close> at the mount and at the adds differ from one another, see
  \<open>distinct_clock_fresh\<close>). Then no handler raises and the
  ids of the objects of the resulting list are pairwise distinct, in both variants; in
  particular the id of each new object differs from the ids already in the list.
  \<^verbatim>\<open>addTextNode\<close> itself does not look at the ids in the list.
\<close>

theorem ids_distinct:
  "(guarded freshAdd step evs (mount now) \<longrightarrow>
      (\<exists>s. run evs (mount now) = Inr s \<and> distinct (map node_id (textNodes s)))) \<and>
   (guarded freshAdd app_step evs (mount now) \<longrightarrow>
      (\<exists>s. app_run evs (mount now) = Inr s \<and> distinct (map node_id (textNodes s))))"
proof (intro conjI impI)
  assume g: "guarded freshAdd step evs (mount now)"
  from run_total [OF settled_mount, of evs now] obtain s where s: "run evs (mount now) = Inr s"
    by blast
  from idsInv_run [OF idsInv_mount g s] s
  show "\<exists>s. run evs (mount now) = Inr s \<and> distinct (map node_id (textNodes s))"
    by (auto simp: idsInv_def)
next
  assume g: "guarded freshAdd app_step evs (mount now)"
  from app_run_total [OF settled_mount, of evs now] obtain s
    where s: "app_run evs (mount now) = Inr s"
    by blast
  from idsInv_app_run [OF idsInv_mount g s] s
  show "\<exists>s. app_run evs (mount now) = Inr s \<and> distinct (map node_id (textNodes s))"
    by (auto simp: idsInv_def)
qed

text \<open>Witness for C8: adds at the clock readings 7 (mount), 8 and 9, with a delete and an undo.\<close>

theorem ids_distinct_witness:
  "(\<exists>s. run [AddText 8, DeleteSelected, Undo, AddText 9] (mount 7) = Inr s \<and>
        distinct (map node_id (textNodes s))) \<and>
   (\<exists>s. app_run [AddText 8, DeleteSelected, Undo, AddText 9] (mount 7) = Inr s \<and>
        distinct (map node_id (textNodes s)))"
proof -
  have "guarded freshAdd step [AddText 8, DeleteSelected, Undo, AddText 9] (mount 7)"
    by code_simp
  moreover have "guarded freshAdd app_step [AddText 8, DeleteSelected, Undo, AddText 9] (mount 7)"
    by code_simp
  ultimately show ?thesis
    using ids_distinct [of "[AddText 8, DeleteSelected, Undo, AddText 9]" 7] by blast
qed

text \<open>
  Counterexample to C8 as stated: an add in the millisecond of the mount (both read the
  clock value 1) gives two objects with the id \<^verbatim>\<open>1\<close>.
\<close>

theorem ids_distinct_counterexample:
  "(case run [AddText 1] (mount 1) of
      Inl err \<Rightarrow> False
    | Inr s \<Rightarrow> map node_id (textNodes s) = [''1'', ''1''] \<and>
        \<not> distinct (map node_id (textNodes s)))"
  by code_simp

section \<open>C2: the selection refers to an object of the list\<close>

lemma find_id: "find (\<lambda>n. node_id n = i) ns = Some n \<Longrightarrow> i \<in> set (map node_id ns)"
  by (auto simp: find_Some_iff)

lemma selectionOk_iff:
  "selectionOk s \<longleftrightarrow> (\<forall>i. selectedId s = Some i \<longrightarrow> i \<in> set (map node_id (textNodes s)))"
  by (simp add: selectionOk_def split: option.splits)

lemma selectionOk_ids:
  "selectionOk s \<Longrightarrow> map node_id (textNodes s') = map node_id (textNodes s) \<Longrightarrow>
   selectedId s' = selectedId s \<Longrightarrow> selectionOk s'"
  by (simp add: selectionOk_iff del: set_map split: option.splits)

lemma selectionOk_handle:
  assumes "selectionOk s" and "clickOnNode e s" and "handle e s = Inr s'"
  shows "selectionOk s'"
proof (cases e)
  case (StageClick t)
  with assms show ?thesis
    by (cases t)
      (auto simp: selectionOk_iff handleStageClick_def split: option.splits if_splits)
next
  case (TextDoubleClick i)
  with handle_ids [OF assms(3)] have ids: "map node_id (textNodes s') = map node_id (textNodes s)"
    by simp
  show ?thesis
  proof (cases "isDragging s \<or> find (\<lambda>n. node_id n = i) (textNodes s) = None")
    case True
    with TextDoubleClick assms(3) have "s' = s"
      by (auto simp: handleTextDoubleClick_def)
    with assms(1) show ?thesis
      by simp
  next
    case False
    then obtain n where n: "find (\<lambda>n. node_id n = i) (textNodes s) = Some n"
      by auto
    with False TextDoubleClick assms(3) have "selectedId s' = Some i"
      by (auto simp: handleTextDoubleClick_def)
    with find_id [OF n] ids show ?thesis
      by (simp add: selectionOk_iff del: set_map)
  qed
next
  case (AddText now)
  with assms show ?thesis
    by (auto simp: selectionOk_iff addTextNode_def Let_def)
next
  case Undo
  with assms show ?thesis
    by (auto simp: selectionOk_iff undo_def cloneDeep_def Let_def split: if_splits option.splits)
next
  case Redo
  with assms show ?thesis
    by (auto simp: selectionOk_iff redo_def cloneDeep_def Let_def split: if_splits option.splits)
next
  case DeleteSelected
  with assms show ?thesis
    by (auto simp: selectionOk_iff deleteSelected_def split: if_splits)
next
  case DragStart
  with assms show ?thesis
    by (auto simp: selectionOk_iff handleDragStart_def)
next
  case (DragEnd i ex ey)
  with handle_ids [OF assms(3)] have "map node_id (textNodes s') = map node_id (textNodes s)"
    by simp
  moreover from DragEnd assms(3) have "selectedId s' = selectedId s"
    by (auto simp: handleDragEnd_def)
  ultimately show ?thesis
    using assms(1) by (rule selectionOk_ids [rotated])
next
  case (Transform i scaleX)
  with handle_ids [OF assms(3)] have "map node_id (textNodes s') = map node_id (textNodes s)"
    by simp
  moreover from Transform assms(3) have "selectedId s' = selectedId s"
    by (auto simp: handleTransform_def Let_def split: option.splits)
  ultimately show ?thesis
    using assms(1) by (rule selectionOk_ids [rotated])
next
  case (TransformEnd i ex ey scaleX scaleY w h)
  with handle_ids [OF assms(3)] have "map node_id (textNodes s') = map node_id (textNodes s)"
    by simp
  moreover from TransformEnd assms(3) have "selectedId s' = selectedId s"
    by (auto simp: handleTransformEnd_def split: option.splits)
  ultimately show ?thesis
    using assms(1) by (rule selectionOk_ids [rotated])
next
  case (InputChange v)
  with assms show ?thesis
    by (auto simp: selectionOk_iff)
next
  case (InputBlur v)
  with handle_ids [OF assms(3)] have "map node_id (textNodes s') = map node_id (textNodes s)"
    by simp
  moreover from InputBlur assms(3) have "selectedId s' = selectedId s"
    by (auto simp: handleInputBlur_def Let_def)
  ultimately show ?thesis
    using assms(1) by (rule selectionOk_ids [rotated])
next
  case (FontSizeChange z)
  with handle_ids [OF assms(3)] have "map node_id (textNodes s') = map node_id (textNodes s)"
    by simp
  moreover from FontSizeChange assms(3) have "selectedId s' = selectedId s"
    by (auto simp: handleFontSizeChange_def Let_def)
  ultimately show ?thesis
    using assms(1) by (rule selectionOk_ids [rotated])
next
  case (ColorChange c)
  with handle_ids [OF assms(3)] have "map node_id (textNodes s') = map node_id (textNodes s)"
    by simp
  moreover from ColorChange assms(3) have "selectedId s' = selectedId s"
    by (auto simp: handleColorChange_def Let_def)
  ultimately show ?thesis
    using assms(1) by (rule selectionOk_ids [rotated])
qed

lemma selectionOk_historyEffect: "selectionOk s \<Longrightarrow> selectionOk (historyEffect s)"
  by (simp add: selectionOk_iff historyEffect_def Let_def split: option.splits)

lemma selectionOk_step:
  "selectionOk s \<Longrightarrow> clickOnNode e s \<Longrightarrow> step e s = Inr s' \<Longrightarrow> selectionOk s'"
  by (auto simp: step_def split: sum.splits dest: selectionOk_handle
      intro: selectionOk_historyEffect)

lemma selectionOk_run:
  "selectionOk s \<Longrightarrow> guarded clickOnNode step evs s \<Longrightarrow> run evs s = Inr s' \<Longrightarrow> selectionOk s'"
proof (induction evs arbitrary: s)
  case Nil
  then show ?case by simp
next
  case (Cons e evs)
  from Cons.prems(3) obtain s1 where s1: "step e s = Inr s1" and r: "run evs s1 = Inr s'"
    by (auto split: sum.splits)
  from Cons.prems(2) s1 have g: "clickOnNode e s" "guarded clickOnNode step evs s1"
    by simp_all
  from selectionOk_step [OF Cons.prems(1) g(1) s1] have "selectionOk s1" .
  from Cons.IH [OF this g(2) r] show ?case .
qed

lemma selectionOk_mount: "selectionOk (mount now)"
  by (simp add: mount_def historyEffect_def init_state_def addTextNode_def isEqual_def
      index_def slice0_def selectionOk_iff Let_def)

text \<open>
  In \<^verbatim>\<open>part_000\<close> the selection is \<^verbatim>\<open>null\<close> or the id of an object of the list after every
  run in which the clicks on text nodes hit nodes of the current list: undo, redo and
  delete clear the selection.
\<close>

lemma part_000_selection_valid:
  assumes "guarded clickOnNode step evs (mount now)"
  shows "\<exists>s. run evs (mount now) = Inr s \<and>
             (selectedId s = None \<or> (\<exists>i \<in> set (map node_id (textNodes s)). selectedId s = Some i))"
proof -
  from run_total [OF settled_mount, of evs now] obtain s where s: "run evs (mount now) = Inr s"
    by blast
  from selectionOk_run [OF selectionOk_mount assms s] s show ?thesis
    by (cases "selectedId s") (auto simp: selectionOk_def simp del: set_map)
qed

text \<open>
  C2 fails in \<^verbatim>\<open>App.tsx\<close>, whose \<^verbatim>\<open>undo\<close> and \<^verbatim>\<open>redo\<close> keep the selection: after mount
  (clock 1), an add (clock 2) and an undo, the list holds only the object \<^verbatim>\<open>1\<close> and the
  selection is still \<^verbatim>\<open>2\<close>.
\<close>

theorem app_selection_dangling:
  "(case app_run [AddText 2, Undo] (mount 1) of
      Inl err \<Rightarrow> False
    | Inr s \<Rightarrow> selectedId s = Some ''2'' \<and> map node_id (textNodes s) = [''1''] \<and>
        \<not> selectionOk s)"
  by code_simp

section \<open>C6: undo and redo clear the selection\<close>

text \<open>
  In \<^verbatim>\<open>part_000\<close> an undo or redo that installs a snapshot clears the selection; in
  \<^verbatim>\<open>App.tsx\<close> both leave the selection as it was.
\<close>

lemma undo_clears_selection:
  "0 < historyIndex s \<Longrightarrow> undo s = Inr s' \<Longrightarrow> selectedId s' = None"
  by (auto simp: undo_def cloneDeep_def Let_def split: option.splits)

lemma redo_clears_selection:
  "historyIndex s < int (length (history s)) - 1 \<Longrightarrow> redo s = Inr s' \<Longrightarrow> selectedId s' = None"
  by (auto simp: redo_def cloneDeep_def Let_def split: option.splits)

lemma app_undo_redo_selection:
  "(app_undo s = Inr s' \<longrightarrow> selectedId s' = selectedId s) \<and>
   (app_redo s = Inr s' \<longrightarrow> selectedId s' = selectedId s)"
  by (auto simp: app_undo_def app_redo_def cloneDeep_def Let_def split: option.splits if_splits)

text \<open>
  C6 fails in \<^verbatim>\<open>App.tsx\<close>: after mount (clock 1) an undo installs the empty snapshot and
  the selection is still \<^verbatim>\<open>1\<close>; a redo installs the snapshot with the object and the
  selection is still \<^verbatim>\<open>1\<close>. In \<^verbatim>\<open>part_000\<close> the same undo leaves no selection.
\<close>

theorem app_undo_keeps_selection:
  "(case app_run [Undo] (mount 1) of
      Inl err \<Rightarrow> False
    | Inr s \<Rightarrow> historyIndex s = 0 \<and> textNodes s = [] \<and> selectedId s = Some ''1'') \<and>
   (case app_run [Undo, Redo] (mount 1) of
      Inl err \<Rightarrow> False
    | Inr s \<Rightarrow> historyIndex s = 1 \<and> map node_id (textNodes s) = [''1''] \<and> selectedId s = Some ''1'') \<and>
   (case run [Undo] (mount 1) of
      Inl err \<Rightarrow> False
    | Inr s \<Rightarrow> historyIndex s = 0 \<and> textNodes s = [] \<and> selectedId s = None)"
  by code_simp

section \<open>C5: at most one object in edit mode\<close>

lemma filter_id_distinct:
  "distinct (map node_id ns) \<Longrightarrow> length (filter (\<lambda>n. node_id n = i) ns) \<le> 1"
proof (induction ns)
  case Nil
  then show ?case by simp
next
  case (Cons n ns)
  show ?case
  proof (cases "node_id n = i")
    case True
    with Cons.prems have "\<forall>m\<in>set ns. node_id m \<noteq> i"
      by (auto simp: image_iff)
    then have "filter (\<lambda>n. node_id n = i) ns = []"
      by (simp add: filter_empty_conv)
    with True show ?thesis by simp
  next
    case False
    with Cons show ?thesis by simp
  qed
qed

lemma filter_map_le:
  "(\<And>n. P (f n) \<Longrightarrow> P n) \<Longrightarrow> length (filter P (map f ns)) \<le> length (filter P ns)"
  by (induction ns) auto

lemma oneEditing_map:
  "oneEditing ns \<Longrightarrow> (\<And>n. editing (f n) \<Longrightarrow> editing n) \<Longrightarrow> oneEditing (map f ns)"
  unfolding oneEditing_def using filter_map_le [of editing f ns] by simp

lemma oneEditing_filter: "oneEditing ns \<Longrightarrow> oneEditing (filter P ns)"
  unfolding oneEditing_def
  using length_filter_le [of P "filter editing ns"] by (simp add: conj_commute)

lemma beginEdit_editing:
  "filter editing (map (\<lambda>n. if node_id n = i then n\<lparr>node_isEditing := Some True\<rparr>
                             else n\<lparr>node_isEditing := Some False\<rparr>) ns) =
   map (\<lambda>n. n\<lparr>node_isEditing := Some True\<rparr>) (filter (\<lambda>n. node_id n = i) ns)"
  by (induction ns) (auto simp: editing_def)

lemma oneEditing_handleTextDoubleClick:
  "distinct (map node_id (textNodes s)) \<Longrightarrow> oneEditing (textNodes s) \<Longrightarrow>
   oneEditing (textNodes (handleTextDoubleClick i s))"
  using filter_id_distinct [of "textNodes s" i]
  by (auto simp: handleTextDoubleClick_def oneEditing_def beginEdit_editing split: option.splits)

lemma editInv_historyEffect: "editInv s \<Longrightarrow> editInv (historyEffect s)"
  by (auto simp: editInv_def historyEffect_def slice0_def Let_def dest: in_set_takeD)

lemma editInv_frame:
  "editInv s \<Longrightarrow> history s' = history s \<Longrightarrow> oneEditing (textNodes s') \<Longrightarrow> editInv s'"
  by (simp add: editInv_def)

lemma editInv_handle:
  assumes "editInv s" and "idsInv s" and "handle e s = Inr s'"
  shows "editInv s'"
proof (cases e)
  case (StageClick t)
  with assms show ?thesis
    by (cases t) (auto simp: editInv_def handleStageClick_def split: option.splits if_splits)
next
  case DragStart
  with assms show ?thesis
    by (auto simp: editInv_def handleDragStart_def)
next
  case (DragEnd i ex ey)
  with assms show ?thesis
    by (auto simp: editInv_def handleDragEnd_def editing_def intro!: oneEditing_map
        split: if_splits)
next
  case (Transform i scaleX)
  with assms show ?thesis
    by (auto simp: editInv_def handleTransform_def Let_def split: option.splits if_splits)
next
  case (TransformEnd i ex ey scaleX scaleY w h)
  with assms show ?thesis
    by (auto simp: editInv_def handleTransformEnd_def editing_def transformed_def
        intro!: oneEditing_map split: option.splits if_splits)
next
  case (TextDoubleClick i)
  with assms(3) have h: "history s' = history s"
    using handle_history [of e s s'] by simp
  from assms(1,2) have "oneEditing (textNodes (handleTextDoubleClick i s))"
    by (intro oneEditing_handleTextDoubleClick) (simp_all add: idsInv_def editInv_def)
  with TextDoubleClick assms(3) have "oneEditing (textNodes s')"
    by auto
  with assms(1) h show ?thesis
    by (rule editInv_frame)
next
  case (InputChange v)
  with assms show ?thesis
    by (auto simp: editInv_def)
next
  case (InputBlur v)
  with assms show ?thesis
    by (auto simp: editInv_def handleInputBlur_def Let_def editing_def intro!: oneEditing_map
        split: if_splits)
next
  case (FontSizeChange z)
  with assms show ?thesis
    by (auto simp: editInv_def handleFontSizeChange_def Let_def editing_def
        intro!: oneEditing_map split: if_splits)
next
  case (ColorChange c)
  with assms show ?thesis
    by (auto simp: editInv_def handleColorChange_def Let_def editing_def
        intro!: oneEditing_map split: if_splits)
next
  case (AddText now)
  with assms show ?thesis
    by (auto simp: editInv_def addTextNode_def Let_def oneEditing_def editing_def)
next
  case Undo
  with assms show ?thesis
    by (auto simp: editInv_def undo_def cloneDeep_def Let_def dest!: index_in_set
        split: if_splits option.splits)
next
  case Redo
  with assms show ?thesis
    by (auto simp: editInv_def redo_def cloneDeep_def Let_def dest!: index_in_set
        split: if_splits option.splits)
next
  case DeleteSelected
  with assms show ?thesis
    by (auto simp: editInv_def deleteSelected_def oneEditing_filter split: if_splits)
qed

lemma editInv_run:
  "editInv s \<Longrightarrow> idsInv s \<Longrightarrow> guarded freshAdd step evs s \<Longrightarrow> run evs s = Inr s' \<Longrightarrow>
   editInv s'"
proof (induction evs arbitrary: s)
  case Nil
  then show ?case by simp
next
  case (Cons e evs)
  from Cons.prems(4) obtain s1 where s1: "step e s = Inr s1" and r: "run evs s1 = Inr s'"
    by (auto split: sum.splits)
  from Cons.prems(3) s1 have g: "freshAdd e s" "guarded freshAdd step evs s1"
    by simp_all
  from idsInv_step [OF Cons.prems(2) g(1) s1] have i1: "idsInv s1" .
  from s1 obtain s0 where s0: "handle e s = Inr s0" "s1 = historyEffect s0"
    by (auto simp: step_def split: sum.splits)
  from editInv_handle [OF Cons.prems(1,2) s0(1)] s0(2) have "editInv s1"
    by (simp add: editInv_historyEffect)
  from Cons.IH [OF this i1 g(2) r] show ?case .
qed

lemma editInv_mount: "editInv (mount now)"
  by (simp add: mount_def historyEffect_def init_state_def addTextNode_def isEqual_def
      index_def slice0_def editInv_def oneEditing_def editing_def Let_def)

text \<open>
  In \<^verbatim>\<open>part_000\<close>, after every run whose adds read fresh clock values (so that the ids are
  distinct), at most one object of the list is in edit mode.
\<close>

lemma part_000_one_editing:
  assumes "guarded freshAdd step evs (mount now)"
  shows "\<exists>s. run evs (mount now) = Inr s \<and> length (filter editing (textNodes s)) \<le> 1"
proof -
  from run_total [OF settled_mount, of evs now] obtain s where s: "run evs (mount now) = Inr s"
    by blast
  from editInv_run [OF editInv_mount idsInv_mount assms s] s show ?thesis
    by (auto simp: editInv_def oneEditing_def)
qed

text \<open>
  The double-click handler of \<^verbatim>\<open>part_000\<close>, when it finds the target and no drag is in
  flight, sets the flag of every object: true for the target id, false for every other.
\<close>

lemma part_000_beginEdit:
  assumes "find (\<lambda>n. node_id n = i) (textNodes s) = Some node" and "\<not> isDragging s"
    and "k < length (textNodes s)"
  shows "node_isEditing (textNodes (handleTextDoubleClick i s) ! k) =
         Some (node_id (textNodes s ! k) = i)"
  using assms by (simp add: handleTextDoubleClick_def)

text \<open>
  C5 fails in \<^verbatim>\<open>App.tsx\<close>, whose double-click handler sets the flag of the target and
  leaves the other flags as they are. After mount (clock 1) and an add (clock 2), a double
  click on \<^verbatim>\<open>1\<close>, an undo and a redo bring back the snapshot in which \<^verbatim>\<open>1\<close> is in edit mode;
  a double click on \<^verbatim>\<open>2\<close> then leaves both objects in edit mode. So do a double click on
  \<^verbatim>\<open>1\<close>, a commit (blur), an undo and a double click on \<^verbatim>\<open>2\<close>. The same gestures in
  \<^verbatim>\<open>part_000\<close> leave only \<^verbatim>\<open>2\<close> in edit mode.
\<close>

theorem app_two_editing:
  "(case app_run [AddText 2, TextDoubleClick ''1'', Undo, Redo, TextDoubleClick ''2''] (mount 1) of
      Inl err \<Rightarrow> False
    | Inr s \<Rightarrow> map node_id (textNodes s) = [''1'', ''2''] \<and>
        map node_isEditing (textNodes s) = [Some True, Some True] \<and>
        length (filter editing (textNodes s)) = 2) \<and>
   (case app_run [AddText 2, TextDoubleClick ''1'', InputBlur None, Undo, TextDoubleClick ''2'']
           (mount 1) of
      Inl err \<Rightarrow> False
    | Inr s \<Rightarrow> map node_id (textNodes s) = [''1'', ''2''] \<and>
        map node_isEditing (textNodes s) = [Some True, Some True] \<and>
        length (filter editing (textNodes s)) = 2) \<and>
   (case run [AddText 2, TextDoubleClick ''1'', Undo, Redo, TextDoubleClick ''2''] (mount 1) of
      Inl err \<Rightarrow> False
    | Inr s \<Rightarrow> map node_id (textNodes s) = [''1'', ''2''] \<and>
        map node_isEditing (textNodes s) = [Some False, Some True]) \<and>
   (case run [AddText 2, TextDoubleClick ''1'', InputBlur None, Undo, TextDoubleClick ''2'']
           (mount 1) of
      Inl err \<Rightarrow> False
    | Inr s \<Rightarrow> map node_id (textNodes s) = [''1'', ''2''] \<and>
        map node_isEditing (textNodes s) = [Some False, Some True])"
  by code_simp

end
